theory Spec2Isabelle
  imports Complex_Main "HOL-Library.Multiset"
begin

section \<open>Text metrics and wrapping (process-map-svg.js)\<close>

text \<open>
  Numbers are rationals. In this and the following sections the arithmetic is exact; the
  sections on binary64 arithmetic further down give the budget of \<open>wrap\<close> and the
  reconciliation pass with every result rounded as JavaScript rounds it. The character
  budget of \<open>wrap\<close> is \<open>Math.floor(maxPx / (fontSize * 0.57))\<close>, which in JavaScript is a
  finite integer, an infinity (division by zero) or NaN (zero by zero); the type \<open>limit\<close>
  keeps the three apart, with the comparisons the source makes against it.
\<close>

datatype limit = Fin int | PosInf | NegInf | NotANumber

definition maxCharsOf :: "rat \<Rightarrow> rat \<Rightarrow> limit" where
  "maxCharsOf maxPx fontSize =
     (let d = fontSize * (57 / 100) in
      if d = 0 then (if 0 < maxPx then PosInf else if maxPx < 0 then NegInf else NotANumber)
      else Fin \<lfloor>maxPx / d\<rfloor>)"

text \<open>\<open>n <= maxChars\<close> and \<open>n > maxChars\<close> for a string length \<open>n\<close>.\<close>

fun lenLe :: "nat \<Rightarrow> limit \<Rightarrow> bool" where
  "lenLe n (Fin m) = (int n \<le> m)"
| "lenLe n PosInf = True"
| "lenLe n NegInf = False"
| "lenLe n NotANumber = False"

fun lenGt :: "nat \<Rightarrow> limit \<Rightarrow> bool" where
  "lenGt n (Fin m) = (m < int n)"
| "lenGt n PosInf = False"
| "lenGt n NegInf = True"
| "lenGt n NotANumber = False"

definition approxW :: "string \<Rightarrow> rat \<Rightarrow> rat" where
  "approxW str fontSize = of_nat (length str) * fontSize * (57 / 100)"

text \<open>\<open>str.split(' ')\<close>: the empty string gives one empty word.\<close>

fun split_sp :: "string \<Rightarrow> string list" where
  "split_sp [] = [[]]"
| "split_sp (c # cs) =
     (if c = CHR '' '' then [] # split_sp cs
      else (case split_sp cs of [] \<Rightarrow> [[c]] | w # ws \<Rightarrow> (c # w) # ws))"

text \<open>
  The body of the \<open>for (const w of words)\<close> loop; the state is the current line \<open>cur\<close>
  and the lines pushed so far. An empty \<open>cur\<close> is falsy.
\<close>

definition wrapStep :: "limit \<Rightarrow> string list \<times> string \<Rightarrow> string \<Rightarrow> string list \<times> string" where
  "wrapStep maxChars st w =
     (let lines = fst st; cur = snd st;
          test = (if cur \<noteq> [] then cur @ '' '' @ w else w) in
      if lenGt (length test) maxChars \<and> cur \<noteq> []
      then (lines @ [cur], w)
      else (lines, test))"

definition wrapLoop :: "limit \<Rightarrow> string list \<times> string \<Rightarrow> string list \<Rightarrow> string list \<times> string" where
  "wrapLoop maxChars st ws = foldl (wrapStep maxChars) st ws"

definition wrap :: "string \<Rightarrow> rat \<Rightarrow> rat \<Rightarrow> string list" where
  "wrap str maxPx fontSize =
     (let maxChars = maxCharsOf maxPx fontSize in
      if lenLe (length str) maxChars then [str]
      else (case wrapLoop maxChars ([], []) (split_sp str) of
              (lines, cur) \<Rightarrow> if cur \<noteq> [] then lines @ [cur] else lines))"

text \<open>\<open>lines.join(' ')\<close>, and the normal form with single spaces between non-empty words.\<close>

fun joinSp :: "string list \<Rightarrow> string" where
  "joinSp [] = []"
| "joinSp [a] = a"
| "joinSp (a # b # r) = a @ '' '' @ joinSp (b # r)"

definition nonEmptyWords :: "string \<Rightarrow> string list" where
  "nonEmptyWords s = filter (\<lambda>w. w \<noteq> []) (split_sp s)"

definition normalizeSp :: "string \<Rightarrow> string" where
  "normalizeSp s = joinSp (nonEmptyWords s)"

section \<open>Node sizing\<close>

text \<open>
  The process description, with the fields the layout reads. \<open>errorLoop\<close> is null or a
  descriptor object, kept here by its condition text; \<open>decisionOutcome\<close> is absent or a
  string.
\<close>

record hiddenAction =
  description :: string
  atype :: string

record step =
  sid :: string
  name :: string
  isDecisionPoint :: bool
  decisionOutcome :: "string option"
  errorLoop :: "string option"
  hiddenActions :: "hiddenAction list"

record phase =
  pid :: string
  steps :: "step list"

definition stepW :: rat where "stepW = 480"
definition stepMinH :: rat where "stepMinH = 56"
definition stepPadTop :: rat where "stepPadTop = 12"
definition stepPadBottom :: rat where "stepPadBottom = 10"
definition stepNameLineH :: rat where "stepNameLineH = 17"
definition stepBadgeRowH :: rat where "stepBadgeRowH = 22"
definition stepNameBadgeGap :: rat where "stepNameBadgeGap = 6"
definition stepFontSz :: rat where "stepFontSz = 12"

record dims =
  dlines :: "string list"
  nameH :: rat
  idW :: rat
  dh :: rat

definition stepDims :: "step \<Rightarrow> dims" where
  "stepDims st =
     (let idW = approxW (sid st) 10 + 14;
          hasExp = (hiddenActions st \<noteq> [] \<or> errorLoop st \<noteq> None);
          indicatorW = (if hasExp then 40 else 0);
          nameW = stepW - idW - indicatorW - 32;
          lines = wrap (name st) nameW stepFontSz;
          nameH = of_nat (length lines) * stepNameLineH;
          h = stepPadTop + nameH + stepNameBadgeGap + stepBadgeRowH + stepPadBottom
      in \<lparr>dlines = lines, nameH = nameH, idW = idW, dh = max h stepMinH\<rparr>)"

text \<open>The lines a loop state stands for: the pushed lines, then \<open>cur\<close> when it is non-empty.\<close>

definition linesOf :: "string list \<times> string \<Rightarrow> string list" where
  "linesOf st = fst st @ (if snd st = [] then [] else [snd st])"

text \<open>
  Invariant of the wrapping loop, relative to the word list \<open>W\<close> of the input: a line is
  within the character budget or is one of the words.
\<close>

definition lineOk :: "limit \<Rightarrow> string list \<Rightarrow> string \<Rightarrow> bool" where
  "lineOk mc W l = (\<not> lenGt (length l) mc \<or> l \<in> set W)"

definition stateOk :: "limit \<Rightarrow> string list \<Rightarrow> string list \<times> string \<Rightarrow> bool" where
  "stateOk mc W st = ((\<forall>l\<in>set (fst st). lineOk mc W l) \<and> (snd st = [] \<or> lineOk mc W (snd st)))"

text \<open>The pixel budget \<open>nameW\<close> that \<open>stepDims\<close> passes to \<open>wrap\<close>.\<close>

definition nameBudget :: "step \<Rightarrow> rat" where
  "nameBudget st = stepW - (approxW (sid st) 10 + 14)
                    - (if hiddenActions st \<noteq> [] \<or> errorLoop st \<noteq> None then 40 else 0) - 32"

text \<open>A plain task step with the given identifier and name, for concrete instances.\<close>

definition mkStep :: "string \<Rightarrow> string \<Rightarrow> step" where
  "mkStep i n = \<lparr>sid = i, name = n, isDecisionPoint = False, decisionOutcome = None,
                 errorLoop = None, hiddenActions = []\<rparr>"

section \<open>Block randomizer (server.js)\<close>

text \<open>
  A session record of the assignment log, with the two fields the randomizer reads. A
  missing or null \<open>condition\<close> is \<open>None\<close>; the empty string is falsy as well.
\<close>

record session =
  condition :: "string option"
  condition_forced :: bool

definition BLOCK_SIZE :: nat where "BLOCK_SIZE = 4"

definition CONDITIONS :: "string list" where "CONDITIONS = [''detailed'', ''simple'']"

text \<open>
  The state that outlives a call: the cached block \<open>blockRandomize._currentBlock\<close>
  (\<open>None\<close> for null) and the number of \<open>Math.random()\<close> results consumed so far. The
  successive results of \<open>Math.random()\<close> are a parameter \<open>rnd\<close>; each lies in \<open>[0, 1)\<close>.
\<close>

record rstate =
  currentBlock :: "string list option"
  drawn :: nat

definition initialState :: rstate where
  "initialState = \<lparr>currentBlock = None, drawn = 0\<rparr>"

definition inUnit :: "(nat \<Rightarrow> rat) \<Rightarrow> bool" where
  "inUnit rnd = (\<forall>n. 0 \<le> rnd n \<and> rnd n < 1)"

text \<open>\<open>existingSessions.filter(s => !s.condition_forced && s.condition).map(s => s.condition)\<close>\<close>

definition truthy :: "string option \<Rightarrow> bool" where
  "truthy c = (case c of None \<Rightarrow> False | Some s \<Rightarrow> s \<noteq> [])"

definition assignedOf :: "session list \<Rightarrow> string list" where
  "assignedOf existingSessions =
     map (\<lambda>s. the (condition s))
       (filter (\<lambda>s. \<not> condition_forced s \<and> truthy (condition s)) existingSessions)"

text \<open>\<open>[block[i], block[j]] = [block[j], block[i]]\<close>\<close>

definition swap :: "string list \<Rightarrow> nat \<Rightarrow> nat \<Rightarrow> string list" where
  "swap block i j = (block[i := block ! j])[j := block ! i]"

text \<open>
  The Fisher-Yates loop \<open>for (let i = block.length - 1; i > 0; i--)\<close>, with
  \<open>j = Math.floor(Math.random() * (i + 1))\<close>; \<open>k\<close> counts the random numbers consumed.
\<close>

fun shuffleFrom :: "(nat \<Rightarrow> rat) \<Rightarrow> nat \<Rightarrow> nat \<Rightarrow> string list \<Rightarrow> string list \<times> nat" where
  "shuffleFrom rnd k 0 block = (block, k)"
| "shuffleFrom rnd k (Suc i) block =
     shuffleFrom rnd (Suc k) i (swap block (Suc i) (nat \<lfloor>rnd k * of_nat (Suc i + 1)\<rfloor>))"

definition freshBlock :: "string list" where
  "freshBlock = concat (map (replicate (BLOCK_SIZE div 2)) CONDITIONS)"

text \<open>\<open>expected.every((c, i) => c === actual[i])\<close>; both slices have \<open>posInBlock\<close> elements.\<close>

definition consistent :: "string list \<Rightarrow> string list \<Rightarrow> nat \<Rightarrow> bool" where
  "consistent block assigned posInBlock =
     (let expected = take posInBlock block;
          actual = drop (length assigned - posInBlock) assigned
      in list_all (\<lambda>i. i < length actual \<and> expected ! i = actual ! i) [0..<length expected])"

definition fallback :: "(nat \<Rightarrow> rat) \<Rightarrow> rstate \<Rightarrow> string list \<Rightarrow> string \<times> rstate" where
  "fallback rnd st assigned =
     (let detailedCount = length (filter (\<lambda>c. c = ''detailed'') assigned);
          simpleCount = length (filter (\<lambda>c. c = ''simple'') assigned)
      in if detailedCount < simpleCount then (''detailed'', st)
         else if simpleCount < detailedCount then (''simple'', st)
         else ((if rnd (drawn st) < 1 / 2 then ''detailed'' else ''simple''),
               st\<lparr>drawn := Suc (drawn st)\<rparr>))"

definition blockRandomize :: "(nat \<Rightarrow> rat) \<Rightarrow> rstate \<Rightarrow> session list \<Rightarrow> string \<times> rstate" where
  "blockRandomize rnd st existingSessions =
     (let assigned = assignedOf existingSessions;
          total = length assigned;
          posInBlock = total mod BLOCK_SIZE
      in if posInBlock = 0 then
           (case shuffleFrom rnd (drawn st) (length freshBlock - 1) freshBlock of
              (block, k) \<Rightarrow> (block ! 0, \<lparr>currentBlock = Some block, drawn = k\<rparr>))
         else
           (case currentBlock st of
              Some block \<Rightarrow>
                if length block = BLOCK_SIZE \<and> consistent block assigned posInBlock
                then (block ! posInBlock, st)
                else fallback rnd st assigned
            | None \<Rightarrow> fallback rnd st assigned))"

text \<open>
  The caller (\<open>/api/session/create\<close> without a forced condition): the returned label is
  appended to the log as a non-forced session before the next call. \<open>assignMany n\<close> makes
  \<open>n\<close> such calls in sequence, with no restart in between, and collects the labels.
\<close>

definition nonForced :: "string \<Rightarrow> session" where
  "nonForced lbl = \<lparr>condition = Some lbl, condition_forced = False\<rparr>"

fun assignMany :: "(nat \<Rightarrow> rat) \<Rightarrow> nat \<Rightarrow> rstate \<Rightarrow> session list \<Rightarrow> string list \<times> rstate \<times> session list" where
  "assignMany rnd 0 st sessions = ([], st, sessions)"
| "assignMany rnd (Suc n) st sessions =
     (case blockRandomize rnd st sessions of
        (lbl, st') \<Rightarrow>
          (case assignMany rnd n st' (sessions @ [nonForced lbl]) of
             (lbls, st'', sessions'') \<Rightarrow> (lbl # lbls, st'', sessions'')))"

text \<open>A block of labels is balanced when it holds exactly two of each condition.\<close>

definition balanced :: "string list \<Rightarrow> bool" where
  "balanced blk = (count_list blk ''detailed'' = 2 \<and> count_list blk ''simple'' = 2)"

text \<open>The random numbers that make the first block d,d,s,s and the second s,s,d,d.\<close>

definition rndStraddle :: "nat \<Rightarrow> rat" where
  "rndStraddle n = (if n = 3 then 0 else if n = 4 then 2 / 5 else 9 / 10)"

text \<open>
  The number of non-forced log entries that carry a given label, and the cases in which
  the cached block cannot be used mid-block: it is missing, its length is not the block
  size, or its first \<open>posInBlock\<close> labels differ from the most recent \<open>posInBlock\<close>
  non-forced assignments of the log.
\<close>

definition countNonForced :: "session list \<Rightarrow> string \<Rightarrow> nat" where
  "countNonForced sessions lbl =
     length (filter (\<lambda>s. \<not> condition_forced s \<and> condition s = Some lbl) sessions)"

definition cacheUnusable :: "rstate \<Rightarrow> session list \<Rightarrow> bool" where
  "cacheUnusable st sessions =
     (let assigned = assignedOf sessions; posInBlock = length assigned mod BLOCK_SIZE in
      case currentBlock st of
        None \<Rightarrow> True
      | Some block \<Rightarrow> length block \<noteq> BLOCK_SIZE
          \<or> take posInBlock block \<noteq> drop (length assigned - posInBlock) assigned)"

text \<open>A log entry whose condition an operator forced.\<close>

definition forcedS :: "string \<Rightarrow> session" where
  "forcedS lbl = \<lparr>condition = Some lbl, condition_forced = True\<rparr>"

section \<open>Layout engine (process-map-svg.js)\<close>

definition canvasPad :: rat where "canvasPad = 36"
definition phaseGap :: rat where "phaseGap = 28"
definition phasePadX :: rat where "phasePadX = 22"
definition phasePadY :: rat where "phasePadY = 14"
definition phaseLabelH :: rat where "phaseLabelH = 34"
definition stepGap :: rat where "stepGap = 14"
definition decisionSize :: rat where "decisionSize = 50"
definition circleR :: rat where "circleR = 16"
definition loopOffX :: rat where "loopOffX = 46"
definition expPadTop :: rat where "expPadTop = 10"
definition expPadBottom :: rat where "expPadBottom = 10"
definition expLabelH :: rat where "expLabelH = 16"
definition expLabelGap :: rat where "expLabelGap = 6"
definition expActionLineH :: rat where "expActionLineH = 15"
definition expActionGap :: rat where "expActionGap = 4"
definition expActionFontSz :: rat where "expActionFontSz = 11"
definition expErrorH :: rat where "expErrorH = 18"

definition PHASE_INNER_W :: rat where "PHASE_INNER_W = stepW + phasePadX * 2"
definition BAND_EXTRA :: rat where "BAND_EXTRA = loopOffX + 30"
definition FULL_W :: rat where "FULL_W = PHASE_INNER_W + canvasPad * 2 + BAND_EXTRA"

definition expansionH :: "step \<Rightarrow> rat" where
  "expansionH st =
     (if hiddenActions st = [] \<and> errorLoop st = None then 0
      else
        (let h0 = expPadTop;
             h1 = (if hiddenActions st \<noteq> []
                   then foldl (\<lambda>h a. h + of_nat (length (wrap (description a) (stepW - 50) expActionFontSz))
                                          * expActionLineH + expActionGap)
                          (h0 + expLabelH + expLabelGap) (hiddenActions st)
                   else h0);
             h2 = (if errorLoop st \<noteq> None then h1 + 4 + expErrorH else h1)
         in h2 + expPadBottom))"

text \<open>
  The layout elements, a union tagged by \<open>type\<close>. Fields, in order:
  start and end markers \<open>x y r\<close>; task \<open>step phase dims x y w h isExpanded expH\<close>;
  decision \<open>step phase x y size lblLines\<close>; band \<open>phase x y w h\<close>. The phase is kept by
  its identifier.
\<close>

datatype elem =
    StartE rat rat rat
  | EndE rat rat rat
  | TaskE step string dims rat rat rat rat bool rat
  | DecisionE step string rat rat rat "string list"
  | BandE string rat rat rat rat

record layout =
  elems :: "elem list"
  lw :: rat
  lh :: rat
  cx :: rat

text \<open>
  The mutable state of the renderer module. \<open>expandedSteps\<close> is a JavaScript \<open>Set\<close>, kept
  in insertion order; \<open>computeLayout\<close> reads it through \<open>has\<close> only.
\<close>

record moduleState =
  expandedSteps :: "string list"
  currentContainerId :: "string option"
  idPrefix :: string
  blockCounter :: nat
  lastLayout :: "layout option"

text \<open>One iteration of \<open>for (const step of phase.steps)\<close> on the pair (elems, y).\<close>

definition layoutStep :: "moduleState \<Rightarrow> rat \<Rightarrow> string \<Rightarrow> elem list \<times> rat \<Rightarrow> step \<Rightarrow> elem list \<times> rat" where
  "layoutStep ms cx0 ph acc st =
     (let es = fst acc; y = snd acc in
      if isDecisionPoint st then
        (let lblLines = wrap (name st) (stepW * (65 / 100)) 10;
             lblH = (if decisionOutcome st \<noteq> None \<and> decisionOutcome st \<noteq> Some []
                     then 2 * 13 + 4 else of_nat (length lblLines) * 13 + 4)
         in (es @ [DecisionE st ph cx0 (y + decisionSize / 2) decisionSize lblLines],
             y + decisionSize + lblH + 10))
      else
        (let dims = stepDims st;
             isExpanded = (sid st \<in> set (expandedSteps ms));
             expH = (if isExpanded then expansionH st else 0)
         in (es @ [TaskE st ph dims (cx0 - stepW / 2) y stepW (dh dims) isExpanded expH],
             y + dh dims + expH + stepGap)))"

text \<open>One iteration of \<open>for (const phase of PROCESS_MAP.phases)\<close>.\<close>

definition layoutPhase :: "moduleState \<Rightarrow> rat \<Rightarrow> elem list \<times> rat \<Rightarrow> phase \<Rightarrow> elem list \<times> rat" where
  "layoutPhase ms cx0 acc ph =
     (let py0 = snd acc;
          r = foldl (layoutStep ms cx0 (pid ph)) (fst acc, snd acc + phaseLabelH + phasePadY) (steps ph);
          y = snd r + phasePadY
      in (fst r @ [BandE (pid ph) canvasPad py0 (PHASE_INNER_W + BAND_EXTRA) (y - py0)],
          y + phaseGap))"

definition computeLayout :: "phase list \<Rightarrow> moduleState \<Rightarrow> layout" where
  "computeLayout phases ms =
     (let y0 = canvasPad;
          cx0 = canvasPad + phasePadX + stepW / 2;
          r = foldl (layoutPhase ms cx0)
                ([StartE cx0 (y0 + circleR) circleR], y0 + circleR * 2 + 18) phases;
          y = snd r
      in \<lparr>elems = fst r @ [EndE cx0 (y + circleR) circleR],
          lw = FULL_W, lh = y + circleR * 2 + canvasPad, cx = cx0\<rparr>)"

section \<open>Zone height reconciliation\<close>

fun topY :: "elem \<Rightarrow> rat" where
  "topY (StartE x y r) = y - r"
| "topY (EndE x y r) = y - r"
| "topY (TaskE st ph d x y w h ie eh) = y"
| "topY (DecisionE st ph x y sz ls) = y - sz / 2"
| "topY (BandE ph x y w h) = y"

fun bottomY :: "elem \<Rightarrow> rat" where
  "bottomY (StartE x y r) = y + r"
| "bottomY (EndE x y r) = y + r"
| "bottomY (TaskE st ph d x y w h ie eh) = y + h + eh"
| "bottomY (DecisionE st ph x y sz ls) = y + sz / 2"
| "bottomY (BandE ph x y w h) = y"

text \<open>\<open>e.y += shift\<close>\<close>

fun shiftY :: "elem \<Rightarrow> rat \<Rightarrow> elem" where
  "shiftY (StartE x y r) s = StartE x (y + s) r"
| "shiftY (EndE x y r) s = EndE x (y + s) r"
| "shiftY (TaskE st ph d x y w h ie eh) s = TaskE st ph d x (y + s) w h ie eh"
| "shiftY (DecisionE st ph x y sz ls) s = DecisionE st ph x (y + s) sz ls"
| "shiftY (BandE ph x y w h) s = BandE ph x (y + s) w h"

text \<open>\<open>e.type === 'task' || e.type === 'decision'\<close>, and \<open>e.step.id\<close> of such an element.\<close>

fun isStepElem :: "elem \<Rightarrow> bool" where
  "isStepElem (TaskE st ph d x y w h ie eh) = True"
| "isStepElem (DecisionE st ph x y sz ls) = True"
| "isStepElem (StartE x y r) = False"
| "isStepElem (EndE x y r) = False"
| "isStepElem (BandE ph x y w h) = False"

fun stepIdOf :: "elem \<Rightarrow> string" where
  "stepIdOf (TaskE st ph d x y w h ie eh) = sid st"
| "stepIdOf (DecisionE st ph x y sz ls) = sid st"
| "stepIdOf (StartE x y r) = []"
| "stepIdOf (EndE x y r) = []"
| "stepIdOf (BandE ph x y w h) = []"

record zone =
  stepIds :: "string list"
  color :: string

text \<open>A shift boundary \<open>{y, cumulShift}\<close> as a pair.\<close>

type_synonym boundary = "rat \<times> rat"

text \<open>
  \<open>let shift = 0; for (const b of boundaries) if (ey > b.y) shift = Math.max(shift, b.cumulShift)\<close>
\<close>

definition shiftAt :: "boundary list \<Rightarrow> rat \<Rightarrow> rat" where
  "shiftAt boundaries ey =
     foldl (\<lambda>shift b. if fst b < ey then max shift (snd b) else shift) 0 boundaries"

text \<open>The body of \<open>for (const e of layout.elems)\<close>: bands move their two edges independently.\<close>

fun adjustElem :: "boundary list \<Rightarrow> elem \<Rightarrow> elem" where
  "adjustElem boundaries (BandE ph x y w h) =
     (let topShift = shiftAt boundaries y; botShift = shiftAt boundaries (y + h)
      in BandE ph x (y + topShift) w (h + (botShift - topShift)))"
| "adjustElem boundaries e =
     (let shift = shiftAt boundaries (topY e) in if 0 < shift then shiftY e shift else e)"

definition zoneStepElems :: "layout \<Rightarrow> zone \<Rightarrow> elem list" where
  "zoneStepElems layout zone =
     sort_key topY (filter (\<lambda>e. isStepElem e \<and> stepIdOf e \<in> set (stepIds zone)) (elems layout))"

definition zoneBoundaries :: "elem list \<Rightarrow> rat \<Rightarrow> boundary list" where
  "zoneBoundaries stepElems delta =
     (let n = length stepElems;
          yMax = bottomY (last stepElems);
          gaps = (if 1 < n
                  then map (\<lambda>i. (bottomY (stepElems ! i), of_nat (i + 1) * (delta / of_nat (n - 1))))
                         [0..<n - 1]
                  else [])
      in sort_key fst (gaps @ [(yMax, delta)]))"

text \<open>
  One iteration of \<open>for (let idx = 0; idx < zones.length; idx++)\<close>; \<open>reqMinOpt\<close> is
  \<open>minHeights[idx]\<close>, \<open>None\<close> when that is undefined. Each \<open>continue\<close> returns the
  layout as it is.
\<close>

definition adjustZone :: "layout \<Rightarrow> zone \<Rightarrow> rat option \<Rightarrow> layout" where
  "adjustZone layout zone reqMinOpt =
     (case reqMinOpt of
        None \<Rightarrow> layout
      | Some reqMin \<Rightarrow>
          if reqMin \<le> 0 then layout
          else
            (let stepElems = zoneStepElems layout zone in
             if stepElems = [] then layout
             else
               (let yMin = topY (hd stepElems);
                    yMax = bottomY (last stepElems);
                    currentH = yMax - yMin
                in if reqMin \<le> currentH then layout
                   else
                     (let delta = reqMin - currentH;
                          boundaries = zoneBoundaries stepElems delta
                      in layout\<lparr>elems := map (adjustElem boundaries) (elems layout),
                                lh := lh layout + delta\<rparr>))))"

definition nthOpt :: "'a list \<Rightarrow> nat \<Rightarrow> 'a option" where
  "nthOpt xs i = (if i < length xs then Some (xs ! i) else None)"

primrec zonesLoop :: "rat list \<Rightarrow> zone list \<Rightarrow> nat \<Rightarrow> layout \<Rightarrow> layout" where
  "zonesLoop minHeights [] idx layout = layout"
| "zonesLoop minHeights (zone # rest) idx layout =
     zonesLoop minHeights rest (Suc idx) (adjustZone layout zone (nthOpt minHeights idx))"

text \<open>
  The function mutates the layout in place; the model returns the new layout. A null or
  undefined \<open>zones\<close> or \<open>minHeights\<close> is \<open>None\<close>.
\<close>

definition adjustLayoutForZoneMinHeights ::
    "layout \<Rightarrow> zone list option \<Rightarrow> rat list option \<Rightarrow> layout" where
  "adjustLayoutForZoneMinHeights layout zones minHeights =
     (case zones of
        None \<Rightarrow> layout
      | Some zs \<Rightarrow> (case minHeights of None \<Rightarrow> layout | Some ms \<Rightarrow> zonesLoop ms zs 0 layout))"

text \<open>
  The span of a zone (last member's bottom minus first member's top, members sorted by
  top), whether the pass applies to it, and the delta it then adds.
\<close>

definition zoneSpan :: "layout \<Rightarrow> zone \<Rightarrow> rat" where
  "zoneSpan layout zone =
     bottomY (last (zoneStepElems layout zone)) - topY (hd (zoneStepElems layout zone))"

definition zoneDelta :: "layout \<Rightarrow> zone \<Rightarrow> rat option \<Rightarrow> rat option" where
  "zoneDelta layout zone reqMinOpt =
     (case reqMinOpt of
        None \<Rightarrow> None
      | Some reqMin \<Rightarrow>
          if 0 < reqMin \<and> zoneStepElems layout zone \<noteq> [] \<and> zoneSpan layout zone < reqMin
          then Some (reqMin - zoneSpan layout zone) else None)"


text \<open>
  What reconciliation must leave alone: an element with its vertical position (and, for a
  band, its height) blanked out.
\<close>

fun frameOf :: "elem \<Rightarrow> elem" where
  "frameOf (StartE x y r) = StartE x 0 r"
| "frameOf (EndE x y r) = EndE x 0 r"
| "frameOf (TaskE st ph d x y w h ie eh) = TaskE st ph d x 0 w h ie eh"
| "frameOf (DecisionE st ph x y sz ls) = DecisionE st ph x 0 sz ls"
| "frameOf (BandE ph x y w h) = BandE ph x 0 w 0"

text \<open>
  Shifting every element by a function \<open>s\<close> of its top (a band: each edge by \<open>s\<close> of that
  edge).
\<close>

fun shiftBy :: "(rat \<Rightarrow> rat) \<Rightarrow> elem \<Rightarrow> elem" where
  "shiftBy s (BandE ph x y w h) = BandE ph x (y + s y) w (h + (s (y + h) - s y))"
| "shiftBy s (StartE x y r) = StartE x (y + s (y - r)) r"
| "shiftBy s (EndE x y r) = EndE x (y + s (y - r)) r"
| "shiftBy s (TaskE st ph d x y w h ie eh) = TaskE st ph d x (y + s y) w h ie eh"
| "shiftBy s (DecisionE st ph x y sz ls) = DecisionE st ph x (y + s (y - sz / 2)) sz ls"

definition monoShift :: "(rat \<Rightarrow> rat) \<Rightarrow> bool" where
  "monoShift s = ((\<forall>t. 0 \<le> s t) \<and> (\<forall>t u. t \<le> u \<longrightarrow> s t \<le> s u))"

text \<open>A small process description and two module states with the same expanded steps.\<close>

definition examplePhases :: "phase list" where
  "examplePhases =
     [\<lparr>pid = ''understanding'',
       steps = [mkStep ''1.1'' ''Read the research consent form and agree to participate'',
                (mkStep ''1.2'' ''Read the role-play scenario and task instructions'')
                  \<lparr>hiddenActions := [\<lparr>description = ''Understand what is expected'', atype = ''Information: Comprehending''\<rparr>]\<rparr>]\<rparr>,
      \<lparr>pid = ''eligibility'',
       steps = [(mkStep ''2.1'' ''Are you eligible?'')\<lparr>isDecisionPoint := True\<rparr>,
                mkStep ''2.2'' ''Enter the National ID number'']\<rparr>]"

definition stateA :: moduleState where
  "stateA = \<lparr>expandedSteps = [''1.2'', ''2.2''], currentContainerId = Some ''map'', idPrefix = ''pm'',
             blockCounter = 0, lastLayout = None\<rparr>"

definition stateB :: moduleState where
  "stateB = \<lparr>expandedSteps = [''2.2'', ''1.2'', ''2.2''], currentContainerId = None, idPrefix = ''pmb3'',
             blockCounter = 3, lastLayout = Some (computeLayout examplePhases stateA)\<rparr>"


definition noExpansion :: moduleState where
  "noExpansion = \<lparr>expandedSteps = [], currentContainerId = None, idPrefix = ''pm'',
                  blockCounter = 0, lastLayout = None\<rparr>"

definition zoneOne :: zone where
  "zoneOne = \<lparr>stepIds = [''1.1''], color = ''#2B8A3E''\<rparr>"

definition zoneA :: zone where
  "zoneA = \<lparr>stepIds = [''1.1'', ''1.2''], color = ''#2B8A3E''\<rparr>"

definition zoneB :: zone where
  "zoneB = \<lparr>stepIds = [''2.1'', ''2.2''], color = ''#1971C2''\<rparr>"

text \<open>
  Only vertical extents differ between two layouts: the elements agree outside their
  vertical fields, the width and the centre line are the same, and an element whose top
  was above another's still is.
\<close>

definition verticalOnly :: "layout \<Rightarrow> layout \<Rightarrow> bool" where
  "verticalOnly l l' =
     (map frameOf (elems l') = map frameOf (elems l) \<and> lw l' = lw l \<and> cx l' = cx l
      \<and> (\<forall>p\<in>set (zip (elems l) (elems l')). \<forall>q\<in>set (zip (elems l) (elems l')).
             topY (fst p) < topY (fst q) \<longrightarrow> topY (snd p) < topY (snd q)))"





section \<open>Binary64 arithmetic\<close>

text \<open>
  JavaScript numbers are IEEE 754 binary64 values, and each of \<open>+\<close>, \<open>-\<close>, \<open>*\<close>, \<open>/\<close>
  returns the exact result rounded to the nearest binary64 value, ties to the even
  significand. \<open>round64\<close> is that rounding on the rationals, for magnitudes below
  \<open>2^1024\<close> (no overflow to infinity; NaN and the sign of zero are not represented).
  \<open>normalize64\<close> writes a positive number as significand times unit, \<open>(p / q) * (up / uq)\<close>
  with \<open>up / uq = 2^e\<close> and \<open>2^52 \<le> p / q < 2^53\<close>, starting at \<open>e = -52\<close> and not taking
  \<open>e\<close> below \<open>-1074\<close>, the exponent of the subnormal numbers; \<open>roundDiv p q\<close> is the
  significand rounded to the nearest integer, a tie to the even one.
  \<open>9007199254740992\<close> is \<open>2^53\<close> and \<open>4503599627370496\<close> is \<open>2^52\<close>.
\<close>

primrec normalize64 :: "nat \<Rightarrow> int \<Rightarrow> int \<Rightarrow> int \<Rightarrow> int \<Rightarrow> int \<Rightarrow> int \<times> int \<times> int \<times> int" where
  "normalize64 0 p q up uq e = (p, q, up, uq)"
| "normalize64 (Suc k) p q up uq e =
     (if 9007199254740992 * q \<le> p then normalize64 k p (q * 2) (up * 2) uq (e + 1)
      else if p < 4503599627370496 * q \<and> - 1074 < e then normalize64 k (p * 2) q up (uq * 2) (e - 1)
      else (p, q, up, uq))"

definition roundDiv :: "int \<Rightarrow> int \<Rightarrow> int" where
  "roundDiv p q =
     (let d = p div q; r = p mod q in
      if 2 * r < q then d else if q < 2 * r then d + 1 else if even d then d else d + 1)"

definition round64 :: "rat \<Rightarrow> rat" where
  "round64 x =
     (if x = 0 then 0
      else (case quotient_of \<bar>x\<bar> of
              (n, d) \<Rightarrow>
                (case normalize64 2200 (n * 4503599627370496) d 1 4503599627370496 (- 52) of
                   (p, q, up, uq) \<Rightarrow> sgn x * Fract (roundDiv p q * up) uq)))"

section \<open>Wrapping at the budget the engine computes\<close>

text \<open>
  \<open>wrap\<close> from its second line on, for a character budget \<open>maxChars\<close> already computed;
  \<open>wrap\<close> above is \<open>wrapChars\<close> at the budget in exact arithmetic (lemma
  \<open>wrap_wrapChars\<close>), and \<open>wrap64\<close> is \<open>wrapChars\<close> at the budget as binary64 arithmetic
  gives it: \<open>Math.floor(maxPx / (fontSize * 0.57))\<close> with the product and the quotient
  rounded. \<open>approxW64\<close> is \<open>str.length * fontSize * 0.57\<close>, evaluated from the left.
\<close>

definition wrapChars :: "string \<Rightarrow> limit \<Rightarrow> string list" where
  "wrapChars str maxChars =
     (if lenLe (length str) maxChars then [str]
      else (case wrapLoop maxChars ([], []) (split_sp str) of
              (lines, cur) \<Rightarrow> if cur \<noteq> [] then lines @ [cur] else lines))"

definition approxW64 :: "string \<Rightarrow> rat \<Rightarrow> rat" where
  "approxW64 str fontSize = round64 (round64 (of_nat (length str) * fontSize) * round64 (57 / 100))"

definition maxChars64 :: "rat \<Rightarrow> rat \<Rightarrow> limit" where
  "maxChars64 maxPx fontSize =
     (let d = round64 (fontSize * round64 (57 / 100)) in
      if d = 0 then (if 0 < maxPx then PosInf else if maxPx < 0 then NegInf else NotANumber)
      else Fin \<lfloor>round64 (maxPx / d)\<rfloor>)"

definition wrap64 :: "string \<Rightarrow> rat \<Rightarrow> rat \<Rightarrow> string list" where
  "wrap64 str maxPx fontSize = wrapChars str (maxChars64 maxPx fontSize)"

text \<open>Invariant of the wrapping loop: no pushed line is empty.\<close>

definition linesNonEmpty :: "string list \<times> string \<Rightarrow> bool" where
  "linesNonEmpty st = (\<forall>l\<in>set (fst st). l \<noteq> [])"

section \<open>Zone height reconciliation with rounded arithmetic\<close>

text \<open>
  The reconciliation pass once more, with every arithmetic result passed through a
  rounding function \<open>fl\<close>, in the order the source evaluates it. With \<open>fl\<close> the identity
  this is the pass in exact arithmetic defined above (lemma \<open>reconcileF_exact\<close>); with
  \<open>fl = round64\<close> it is the pass as the renderer computes it. Comparisons and
  \<open>Math.max\<close> do not round.
\<close>

fun topYF :: "(rat \<Rightarrow> rat) \<Rightarrow> elem \<Rightarrow> rat" where
  "topYF fl (StartE x y r) = fl (y - r)"
| "topYF fl (EndE x y r) = fl (y - r)"
| "topYF fl (TaskE st ph d x y w h ie eh) = y"
| "topYF fl (DecisionE st ph x y sz ls) = fl (y - fl (sz / 2))"
| "topYF fl (BandE ph x y w h) = y"

fun bottomYF :: "(rat \<Rightarrow> rat) \<Rightarrow> elem \<Rightarrow> rat" where
  "bottomYF fl (StartE x y r) = fl (y + r)"
| "bottomYF fl (EndE x y r) = fl (y + r)"
| "bottomYF fl (TaskE st ph d x y w h ie eh) = fl (fl (y + h) + eh)"
| "bottomYF fl (DecisionE st ph x y sz ls) = fl (y + fl (sz / 2))"
| "bottomYF fl (BandE ph x y w h) = y"

text \<open>\<open>e.y = g(e.y)\<close> on an element.\<close>

fun mapY :: "(rat \<Rightarrow> rat) \<Rightarrow> elem \<Rightarrow> elem" where
  "mapY g (StartE x y r) = StartE x (g y) r"
| "mapY g (EndE x y r) = EndE x (g y) r"
| "mapY g (TaskE st ph d x y w h ie eh) = TaskE st ph d x (g y) w h ie eh"
| "mapY g (DecisionE st ph x y sz ls) = DecisionE st ph x (g y) sz ls"
| "mapY g (BandE ph x y w h) = BandE ph x (g y) w h"

fun adjustElemF :: "(rat \<Rightarrow> rat) \<Rightarrow> boundary list \<Rightarrow> elem \<Rightarrow> elem" where
  "adjustElemF fl boundaries (BandE ph x y w h) =
     (let topShift = shiftAt boundaries y; botShift = shiftAt boundaries (fl (y + h))
      in BandE ph x (fl (y + topShift)) w (fl (h + fl (botShift - topShift))))"
| "adjustElemF fl boundaries e =
     (let shift = shiftAt boundaries (topYF fl e)
      in if 0 < shift then mapY (\<lambda>y. fl (y + shift)) e else e)"

definition zoneStepElemsF :: "(rat \<Rightarrow> rat) \<Rightarrow> layout \<Rightarrow> zone \<Rightarrow> elem list" where
  "zoneStepElemsF fl layout zone =
     sort_key (topYF fl)
       (filter (\<lambda>e. isStepElem e \<and> stepIdOf e \<in> set (stepIds zone)) (elems layout))"

definition zoneBoundariesF :: "(rat \<Rightarrow> rat) \<Rightarrow> elem list \<Rightarrow> rat \<Rightarrow> boundary list" where
  "zoneBoundariesF fl stepElems delta =
     (let n = length stepElems;
          yMax = bottomYF fl (last stepElems);
          gaps = (if 1 < n
                  then (let gapExtra = fl (delta / of_nat (n - 1)) in
                        map (\<lambda>i. (bottomYF fl (stepElems ! i), fl (of_nat (i + 1) * gapExtra)))
                          [0..<n - 1])
                  else [])
      in sort_key fst (gaps @ [(yMax, delta)]))"

definition adjustZoneF :: "(rat \<Rightarrow> rat) \<Rightarrow> layout \<Rightarrow> zone \<Rightarrow> rat option \<Rightarrow> layout" where
  "adjustZoneF fl layout zone reqMinOpt =
     (case reqMinOpt of
        None \<Rightarrow> layout
      | Some reqMin \<Rightarrow>
          if reqMin \<le> 0 then layout
          else
            (let stepElems = zoneStepElemsF fl layout zone in
             if stepElems = [] then layout
             else
               (let yMin = topYF fl (hd stepElems);
                    yMax = bottomYF fl (last stepElems);
                    currentH = fl (yMax - yMin)
                in if reqMin \<le> currentH then layout
                   else
                     (let delta = fl (reqMin - currentH);
                          boundaries = zoneBoundariesF fl stepElems delta
                      in layout\<lparr>elems := map (adjustElemF fl boundaries) (elems layout),
                                lh := fl (lh layout + delta)\<rparr>))))"

primrec zonesLoopF :: "(rat \<Rightarrow> rat) \<Rightarrow> rat list \<Rightarrow> zone list \<Rightarrow> nat \<Rightarrow> layout \<Rightarrow> layout" where
  "zonesLoopF fl minHeights [] idx layout = layout"
| "zonesLoopF fl minHeights (zone # rest) idx layout =
     zonesLoopF fl minHeights rest (Suc idx) (adjustZoneF fl layout zone (nthOpt minHeights idx))"

definition reconcileF ::
    "(rat \<Rightarrow> rat) \<Rightarrow> layout \<Rightarrow> zone list option \<Rightarrow> rat list option \<Rightarrow> layout" where
  "reconcileF fl layout zones minHeights =
     (case zones of
        None \<Rightarrow> layout
      | Some zs \<Rightarrow> (case minHeights of None \<Rightarrow> layout | Some ms \<Rightarrow> zonesLoopF fl ms zs 0 layout))"

text \<open>\<open>adjustLayoutForZoneMinHeights\<close> in the renderer's binary64 arithmetic.\<close>

definition reconcile64 :: "layout \<Rightarrow> zone list option \<Rightarrow> rat list option \<Rightarrow> layout" where
  "reconcile64 layout zones minHeights = reconcileF round64 layout zones minHeights"


text \<open>
  A process of two plain tasks in one phase, with one zone on both, and the minimum height
  \<open>150 / 0.9 + 16\<close> as binary64 arithmetic gives it (the caller passes
  \<open>card.offsetHeight / scale + 16\<close>).
\<close>

definition twoTasks :: "phase list" where
  "twoTasks = [\<lparr>pid = ''p'', steps = [mkStep ''1.1'' ''Read the form'', mkStep ''1.2'' ''Sign the form'']\<rparr>]"

definition zoneBoth :: zone where
  "zoneBoth = \<lparr>stepIds = [''1.1'', ''1.2''], color = ''#2B8A3E''\<rparr>"

definition fractionalMin :: rat where
  "fractionalMin = round64 (round64 (150 / round64 (9 / 10)) + 16)"

text \<open>The number literal \<open>1.7099999999999997\<close>.\<close>

definition tightBudget :: rat where
  "tightBudget = round64 (17099999999999997 / 10000000000000000)"

section \<open>Properties of wrapping\<close>

lemma split_sp_ne: "split_sp s \<noteq> []"
  by (induction s) (auto split: list.splits)

lemma split_sp_append: "split_sp (a @ CHR '' '' # b) = split_sp a @ split_sp b"
  using split_sp_ne by (induction a) (auto split: list.splits)

lemma split_sp_nospace: "CHR '' '' \<notin> set w \<Longrightarrow> split_sp w = [w]"
  by (induction w) (auto split: list.splits)

lemma split_sp_words_nospace: "w \<in> set (split_sp s) \<Longrightarrow> CHR '' '' \<notin> set w"
  by (induction s arbitrary: w) (auto split: list.splits if_splits)

lemma joinSp_split_sp: "joinSp (split_sp s) = s"
proof (induction s)
  case Nil show ?case by simp
next
  case (Cons c cs)
  show ?case
  proof (cases "c = CHR '' ''")
    case True
    obtain w ws where "split_sp cs = w # ws" using split_sp_ne by (cases "split_sp cs") auto
    with True Cons show ?thesis by simp
  next
    case False
    obtain w ws where e: "split_sp cs = w # ws" using split_sp_ne by (cases "split_sp cs") auto
    with False Cons show ?thesis by (cases ws) auto
  qed
qed

lemma joinSp_snoc: "xs \<noteq> [] \<Longrightarrow> joinSp (xs @ [a]) = joinSp xs @ CHR '' '' # a"
  by (induction xs rule: joinSp.induct) auto

lemma joinSp_append: "xs \<noteq> [] \<Longrightarrow> ys \<noteq> [] \<Longrightarrow> joinSp (xs @ ys) = joinSp xs @ CHR '' '' # joinSp ys"
  by (induction xs rule: joinSp.induct) (auto; cases ys; auto)+

lemma nonEmptyWords_append: "nonEmptyWords (a @ CHR '' '' # b) = nonEmptyWords a @ nonEmptyWords b"
  by (simp add: nonEmptyWords_def split_sp_append)

lemma nonEmptyWords_Nil: "nonEmptyWords [] = []"
  by (simp add: nonEmptyWords_def)

lemma nonEmptyWords_joinSp: "nonEmptyWords (joinSp ls) = concat (map nonEmptyWords ls)"
  by (induction ls rule: joinSp.induct) (simp_all add: nonEmptyWords_Nil nonEmptyWords_append)

lemma nonEmptyWords_word: "CHR '' '' \<notin> set w \<Longrightarrow> nonEmptyWords w = (if w = [] then [] else [w])"
  by (simp add: nonEmptyWords_def split_sp_nospace)

lemma wrapStep_words:
  assumes "CHR '' '' \<notin> set w"
  shows "concat (map nonEmptyWords (fst (wrapStep mc st w) @ [snd (wrapStep mc st w)]))
       = concat (map nonEmptyWords (fst st @ [snd st])) @ (if w = [] then [] else [w])"
proof -
  obtain lines cur where st: "st = (lines, cur)" by (cases st)
  have w: "nonEmptyWords w = (if w = [] then [] else [w])"
    using assms by (rule nonEmptyWords_word)
  show ?thesis
  proof (cases "cur = []")
    case True
    then show ?thesis by (simp add: st wrapStep_def nonEmptyWords_Nil w)
  next
    case False
    have t: "nonEmptyWords (cur @ '' '' @ w) = nonEmptyWords cur @ nonEmptyWords w"
      using nonEmptyWords_append[of cur w] by simp
    show ?thesis
    proof (cases "lenGt (length (cur @ '' '' @ w)) mc")
      case True
      then show ?thesis using False by (simp add: st wrapStep_def w del: append.simps)
    next
      case F2: False
      then show ?thesis using False t by (simp add: st wrapStep_def w del: append.simps)
    qed
  qed
qed

lemma wrapLoop_words:
  assumes "\<forall>w\<in>set ws. CHR '' '' \<notin> set w"
  shows "concat (map nonEmptyWords (fst (wrapLoop mc st ws) @ [snd (wrapLoop mc st ws)]))
       = concat (map nonEmptyWords (fst st @ [snd st])) @ filter (\<lambda>w. w \<noteq> []) ws"
  using assms
proof (induction ws arbitrary: st)
  case Nil then show ?case by (simp add: wrapLoop_def)
next
  case (Cons w ws)
  have "wrapLoop mc st (w # ws) = wrapLoop mc (wrapStep mc st w) ws" by (simp add: wrapLoop_def)
  then show ?case using Cons.IH[of "wrapStep mc st w"] Cons.prems wrapStep_words[of w mc st]
    by auto
qed

lemma joinSp_merge: "a \<noteq> [] \<Longrightarrow> joinSp (xs @ [a @ CHR '' '' # b]) = joinSp (xs @ [a, b])"
  by (induction xs rule: joinSp.induct) auto

lemma wrapStep_join:
  assumes "w \<noteq> []"
  shows "joinSp (linesOf (wrapStep mc st w)) = joinSp (linesOf st @ [w])"
proof -
  obtain lines cur where st: "st = (lines, cur)" by (cases st)
  show ?thesis
  proof (cases "cur = []")
    case True
    then show ?thesis using assms by (simp add: st wrapStep_def linesOf_def)
  next
    case False
    have m: "joinSp (lines @ [cur @ '' '' @ w]) = joinSp (lines @ [cur, w])"
      using joinSp_merge[OF False, of lines w] by simp
    show ?thesis
    proof (cases "lenGt (length (cur @ '' '' @ w)) mc")
      case True
      then show ?thesis using False assms by (simp add: st wrapStep_def linesOf_def del: append.simps)
    next
      case F2: False
      then have "wrapStep mc st w = (lines, cur @ '' '' @ w)"
        using False by (simp add: st wrapStep_def)
      then show ?thesis using False m by (simp add: st linesOf_def)
    qed
  qed
qed

lemma linesOf_wrapStep_ne: "w \<noteq> [] \<Longrightarrow> linesOf (wrapStep mc st w) \<noteq> []"
  by (cases "snd st = []") (simp_all add: wrapStep_def Let_def linesOf_def)

lemma joinSp_cong_append:
  assumes "joinSp xs = joinSp ys" "xs \<noteq> []" "ys \<noteq> []"
  shows "joinSp (xs @ zs) = joinSp (ys @ zs)"
proof (cases zs)
  case Nil then show ?thesis using assms by simp
next
  case (Cons z zs')
  then have "zs \<noteq> []" by simp
  then show ?thesis using assms by (simp add: joinSp_append)
qed

lemma wrapLoop_join:
  assumes "\<forall>w\<in>set ws. w \<noteq> []"
  shows "joinSp (linesOf (wrapLoop mc st ws)) = joinSp (linesOf st @ ws)"
  using assms
proof (induction ws arbitrary: st)
  case Nil then show ?case by (simp add: wrapLoop_def)
next
  case (Cons w ws)
  have wne: "w \<noteq> []" and rest: "\<forall>w\<in>set ws. w \<noteq> []" using Cons.prems by simp_all
  have e: "wrapLoop mc st (w # ws) = wrapLoop mc (wrapStep mc st w) ws" by (simp add: wrapLoop_def)
  have "joinSp (linesOf (wrapLoop mc (wrapStep mc st w) ws)) = joinSp (linesOf (wrapStep mc st w) @ ws)"
    using Cons.IH[OF rest] .
  also have "\<dots> = joinSp ((linesOf st @ [w]) @ ws)"
    by (rule joinSp_cong_append[OF wrapStep_join[OF wne] linesOf_wrapStep_ne[OF wne]]) simp
  finally show ?case using e by simp
qed

lemma wrap_fits: "lenLe (length str) (maxCharsOf maxPx fs) \<Longrightarrow> wrap str maxPx fs = [str]"
  by (simp add: wrap_def)

lemma wrapStep_ok:
  assumes "stateOk mc W st" "w \<in> set W"
  shows "stateOk mc W (wrapStep mc st w)"
proof -
  obtain lines cur where st: "st = (lines, cur)" by (cases st)
  show ?thesis
  proof (cases "cur = []")
    case True
    then show ?thesis using assms by (simp add: st wrapStep_def stateOk_def lineOk_def)
  next
    case False
    show ?thesis
    proof (cases "lenGt (length (cur @ '' '' @ w)) mc")
      case True
      then have "wrapStep mc st w = (lines @ [cur], w)" using False by (simp add: st wrapStep_def)
      then show ?thesis using assms False by (simp add: st stateOk_def lineOk_def)
    next
      case F2: False
      then have "wrapStep mc st w = (lines, cur @ '' '' @ w)" using False by (simp add: st wrapStep_def)
      then show ?thesis using assms F2 by (simp add: st stateOk_def lineOk_def)
    qed
  qed
qed

lemma wrapLoop_ok:
  assumes "stateOk mc W st" "set ws \<subseteq> set W"
  shows "stateOk mc W (wrapLoop mc st ws)"
  using assms
proof (induction ws arbitrary: st)
  case Nil then show ?case by (simp add: wrapLoop_def)
next
  case (Cons w ws)
  have "wrapLoop mc st (w # ws) = wrapLoop mc (wrapStep mc st w) ws" by (simp add: wrapLoop_def)
  moreover have "stateOk mc W (wrapStep mc st w)" using Cons.prems by (intro wrapStep_ok) auto
  ultimately show ?case using Cons.IH Cons.prems by simp
qed

lemma lenLe_not_lenGt: "lenLe n mc \<Longrightarrow> \<not> lenGt n mc"
  by (cases mc) auto

lemma wrap_loop_form:
  "\<not> lenLe (length str) (maxCharsOf maxPx fs) \<Longrightarrow>
   wrap str maxPx fs = linesOf (wrapLoop (maxCharsOf maxPx fs) ([], []) (split_sp str))"
  by (auto simp: wrap_def linesOf_def Let_def split: prod.splits)

lemma wrap_wrapChars: "wrap str maxPx fs = wrapChars str (maxCharsOf maxPx fs)"
  by (simp add: wrap_def wrapChars_def)

lemma wrapChars_fits: "lenLe (length str) mc \<Longrightarrow> wrapChars str mc = [str]"
  by (simp add: wrapChars_def)

lemma wrapChars_loop_form:
  "\<not> lenLe (length str) mc \<Longrightarrow> wrapChars str mc = linesOf (wrapLoop mc ([], []) (split_sp str))"
  by (auto simp: wrapChars_def linesOf_def split: prod.splits)

lemma wrapChars_words: "concat (map nonEmptyWords (wrapChars str mc)) = nonEmptyWords str"
proof (cases "lenLe (length str) mc")
  case True then show ?thesis by (simp add: wrapChars_fits)
next
  case False
  let ?r = "wrapLoop mc ([], []) (split_sp str)"
  have "concat (map nonEmptyWords (fst ?r @ [snd ?r])) = nonEmptyWords str"
    using wrapLoop_words[of "split_sp str" mc "([], [])"] split_sp_words_nospace
    by (auto simp: nonEmptyWords_Nil nonEmptyWords_def)
  then show ?thesis unfolding wrapChars_loop_form[OF False]
    by (auto simp: linesOf_def nonEmptyWords_Nil)
qed

lemma wrapChars_join_words:
  assumes "\<forall>w\<in>set (split_sp str). w \<noteq> []"
  shows "joinSp (wrapChars str mc) = str"
proof (cases "lenLe (length str) mc")
  case True then show ?thesis by (simp add: wrapChars_fits)
next
  case False
  have "joinSp (linesOf (wrapLoop mc ([], []) (split_sp str))) = joinSp (split_sp str)"
    using wrapLoop_join[OF assms, of mc "([], [])"] by (simp add: linesOf_def)
  then show ?thesis unfolding wrapChars_loop_form[OF False] by (simp add: joinSp_split_sp)
qed

lemma split_sp_joinSp:
  assumes "ws \<noteq> []" "\<forall>w\<in>set ws. CHR '' '' \<notin> set w"
  shows "split_sp (joinSp ws) = ws"
  using assms
proof (induction ws rule: joinSp.induct)
  case 1 then show ?case by simp
next
  case (2 a) then show ?case by (simp add: split_sp_nospace)
next
  case (3 a b r)
  have "split_sp (joinSp (a # b # r)) = split_sp a @ split_sp (joinSp (b # r))"
    using split_sp_append[of a "joinSp (b # r)"] by simp
  then show ?case using 3 by (simp add: split_sp_nospace)
qed

lemma nonEmptyWords_nospace: "w \<in> set (nonEmptyWords s) \<Longrightarrow> CHR '' '' \<notin> set w \<and> w \<noteq> []"
  using split_sp_words_nospace by (auto simp: nonEmptyWords_def)

lemma wrapChars_empty: "joinSp (wrapChars [] mc) = []"
  by (cases "lenLe 0 mc") (simp_all add: wrapChars_def wrapLoop_def wrapStep_def)

lemma wrapChars_join_normal:
  assumes "normalizeSp str = str"
  shows "joinSp (wrapChars str mc) = str"
proof (cases "str = []")
  case True then show ?thesis by (simp add: wrapChars_empty)
next
  case False
  let ?ws = "nonEmptyWords str"
  have j: "joinSp ?ws = str" using assms by (simp add: normalizeSp_def)
  have ne: "?ws \<noteq> []" using j False by auto
  have "split_sp (joinSp ?ws) = ?ws"
    using ne nonEmptyWords_nospace[of _ str] by (intro split_sp_joinSp) blast+
  then have "split_sp str = ?ws" using j by simp
  then have "\<forall>w\<in>set (split_sp str). w \<noteq> []" using nonEmptyWords_nospace[of _ str] by metis
  then show ?thesis by (rule wrapChars_join_words)
qed

text \<open>
  Claim C6 (as amended). For every string and every character budget (whatever
  \<open>Math.floor(maxPx / (fontSize * 0.57))\<close> evaluates to), the lines returned by \<open>wrap\<close>,
  joined with single spaces, contain the same non-empty words in the same order as the
  input, so both have the same single-space normal form; when the input is already in
  that form (the empty string included) the join is the input itself; and a string of at
  most the budget's number of characters is returned unchanged as the only line.
\<close>

theorem wrapChars_join_roundtrip:
  "normalizeSp (joinSp (wrapChars str maxChars)) = normalizeSp str
   \<and> (normalizeSp str = str \<longrightarrow> joinSp (wrapChars str maxChars) = str)
   \<and> (lenLe (length str) maxChars \<longrightarrow> wrapChars str maxChars = [str])"
  by (simp add: normalizeSp_def nonEmptyWords_joinSp wrapChars_words wrapChars_fits
        wrapChars_join_normal[unfolded normalizeSp_def])

theorem wrapChars_join_roundtrip_witness:
  "normalizeSp ''aaa bbb cc'' = ''aaa bbb cc''
   \<and> wrapChars ''aaa bbb cc'' (Fin 8) = [''aaa bbb'', ''cc'']
   \<and> joinSp (wrapChars ''aaa bbb cc'' (Fin 8)) = ''aaa bbb cc''
   \<and> normalizeSp [] = [] \<and> joinSp (wrapChars [] (Fin (- 1))) = []
   \<and> lenLe (length ''aaa bbb'') (Fin 8) \<and> wrapChars ''aaa bbb'' (Fin 8) = [''aaa bbb'']"
proof -
  have a: "normalizeSp ''aaa bbb cc'' = ''aaa bbb cc''" by code_simp
  have b: "wrapChars ''aaa bbb cc'' (Fin 8) = [''aaa bbb'', ''cc'']" by code_simp
  have c: "normalizeSp [] = []" by code_simp
  have d: "lenLe (length ''aaa bbb'') (Fin 8)" by simp
  show ?thesis
    using wrapChars_join_roundtrip[of "''aaa bbb cc''" "Fin 8"] wrapChars_join_roundtrip[of "[]" "Fin (- 1)"]
          wrapChars_join_roundtrip[of "''aaa bbb''" "Fin 8"] a b c d
    by blast
qed

text \<open>
  Claim C6 as stated fails: a doubled space inside a line is kept, so the join of the lines
  of \<open>"aaa  bbb cc"\<close> at a budget of 8 characters is the input itself, not its
  single-space normal form.
\<close>

theorem wrap_join_counterexample:
  "joinSp (wrap ''aaa  bbb cc'' 460 100) \<noteq> normalizeSp ''aaa  bbb cc''"
  by code_simp

lemma wrapStep_nonEmpty: "linesNonEmpty st \<Longrightarrow> linesNonEmpty (wrapStep mc st w)"
  by (cases "snd st = []") (simp_all add: wrapStep_def linesNonEmpty_def Let_def)

lemma wrapLoop_nonEmpty: "linesNonEmpty st \<Longrightarrow> linesNonEmpty (wrapLoop mc st ws)"
proof (induction ws arbitrary: st)
  case Nil then show ?case by (simp add: wrapLoop_def)
next
  case (Cons w ws)
  have "wrapLoop mc st (w # ws) = wrapLoop mc (wrapStep mc st w) ws" by (simp add: wrapLoop_def)
  then show ?case using Cons.IH[OF wrapStep_nonEmpty[OF Cons.prems]] by simp
qed

lemma wrapChars_lineOk:
  assumes "line \<in> set (wrapChars str mc)"
  shows "lineOk mc (split_sp str) line \<and> (lenGt (length line) mc \<longrightarrow> line \<noteq> [])"
proof (cases "lenLe (length str) mc")
  case True
  then show ?thesis using assms lenLe_not_lenGt by (auto simp: wrapChars_fits lineOk_def)
next
  case False
  let ?r = "wrapLoop mc ([], []) (split_sp str)"
  have "stateOk mc (split_sp str) ?r"
    by (rule wrapLoop_ok) (simp_all add: stateOk_def)
  moreover have "linesNonEmpty ?r" by (rule wrapLoop_nonEmpty) (simp add: linesNonEmpty_def)
  moreover have "line \<in> set (fst ?r) \<or> (snd ?r \<noteq> [] \<and> line = snd ?r)"
    using assms wrapChars_loop_form[OF False] by (auto simp: linesOf_def split: if_splits)
  ultimately show ?thesis by (auto simp: stateOk_def linesNonEmpty_def)
qed

text \<open>
  Claim C7 (as amended). For every string and every character budget (whatever
  \<open>Math.floor(maxPx / (fontSize * 0.57))\<close> evaluates to), \<open>wrap\<close> is total, every
  returned line longer than the budget is one non-empty word of the input (it contains no
  space), and every line that contains a space has at most the budget's number of
  characters.
\<close>

theorem wrapChars_overflow_single_word:
  assumes "line \<in> set (wrapChars str maxChars)"
  shows "(lenGt (length line) maxChars \<longrightarrow>
            line \<in> set (split_sp str) \<and> line \<noteq> [] \<and> CHR '' '' \<notin> set line)
       \<and> (CHR '' '' \<in> set line \<longrightarrow> \<not> lenGt (length line) maxChars)"
proof -
  have over: "line \<in> set (split_sp str) \<and> line \<noteq> [] \<and> CHR '' '' \<notin> set line"
    if o: "lenGt (length line) maxChars"
  proof -
    have m: "line \<in> set (split_sp str)" and n: "line \<noteq> []"
      using wrapChars_lineOk[OF assms] o by (auto simp: lineOk_def)
    then show ?thesis using split_sp_words_nospace[OF m] by simp
  qed
  then show ?thesis by blast
qed

theorem wrapChars_overflow_single_word_witness:
  "wrapChars ''aaa bbbbbbbbbbbb cc'' (Fin 8) = [''aaa'', ''bbbbbbbbbbbb'', ''cc'']
   \<and> lenGt (length ''bbbbbbbbbbbb'') (Fin 8)
   \<and> ''bbbbbbbbbbbb'' \<in> set (split_sp ''aaa bbbbbbbbbbbb cc'')
   \<and> wrapChars ''a b ccc dd'' (Fin 8) = [''a b ccc'', ''dd'']
   \<and> CHR '' '' \<in> set ''a b ccc'' \<and> length ''a b ccc'' = 7"
proof -
  have a: "''bbbbbbbbbbbb'' \<in> set (wrapChars ''aaa bbbbbbbbbbbb cc'' (Fin 8))" by code_simp
  have b: "''a b ccc'' \<in> set (wrapChars ''a b ccc dd'' (Fin 8))" by code_simp
  have c: "wrapChars ''aaa bbbbbbbbbbbb cc'' (Fin 8) = [''aaa'', ''bbbbbbbbbbbb'', ''cc'']" by code_simp
  have d: "wrapChars ''a b ccc dd'' (Fin 8) = [''a b ccc'', ''dd'']" by code_simp
  have e: "lenGt (length ''bbbbbbbbbbbb'') (Fin 8)" by simp
  have f: "CHR '' '' \<in> set ''a b ccc''" by simp
  have g: "length ''a b ccc'' = 7" by simp
  show ?thesis
    using wrapChars_overflow_single_word[OF a] wrapChars_overflow_single_word[OF b] c d e f g
    by blast
qed

text \<open>
  Claim C7 as stated fails, because the budget is enforced in characters and the
  character budget is a rounded quotient: at the pixel budget \<open>1.7099999999999997\<close> and
  font size 1 the engine computes a budget of 3 characters, so the two words of
  \<open>"a b"\<close> stay on one line, whose estimated width \<open>1.71\<close> exceeds the pixel budget.
\<close>

theorem wrap64_pixel_budget_counterexample:
  "0 < tightBudget
   \<and> wrap64 ''a b'' tightBudget 1 = [''a b'']
   \<and> CHR '' '' \<in> set ''a b''
   \<and> tightBudget < approxW64 ''a b'' 1
   \<and> maxChars64 tightBudget 1 = Fin 3"
  by code_simp

section \<open>Properties of node sizing\<close>

lemma lenGt_mono: "lenGt n mc \<Longrightarrow> n \<le> m \<Longrightarrow> lenGt m mc"
  by (cases mc) auto

lemma lenLe_antimono: "lenLe m mc \<Longrightarrow> n \<le> m \<Longrightarrow> lenLe n mc"
  by (cases mc) auto

lemma wrapStep_count_mono: "length (linesOf st) \<le> length (linesOf (wrapStep mc st w))"
  by (cases "snd st = []") (simp_all add: wrapStep_def linesOf_def Let_def)

lemma wrapLoop_count_mono: "length (linesOf st) \<le> length (linesOf (wrapLoop mc st ws))"
proof (induction ws arbitrary: st)
  case Nil show ?case by (simp add: wrapLoop_def)
next
  case (Cons w ws)
  have "wrapLoop mc st (w # ws) = wrapLoop mc (wrapStep mc st w) ws" by (simp add: wrapLoop_def)
  then show ?case using Cons[of "wrapStep mc st w"] wrapStep_count_mono[of st mc w] by simp
qed

lemma wrapStep_count_ext:
  "length (linesOf (wrapStep mc st w)) \<le> length (linesOf (wrapStep mc st (w @ x)))"
proof -
  obtain lines cur where st: "st = (lines, cur)" by (cases st)
  show ?thesis
  proof (cases "cur = []")
    case True then show ?thesis by (simp add: st wrapStep_def linesOf_def)
  next
    case False
    show ?thesis
    proof (cases "lenGt (length (cur @ '' '' @ w)) mc")
      case True
      then have "lenGt (length (cur @ '' '' @ w @ x)) mc" by (rule lenGt_mono) simp
      then have "wrapStep mc st (w @ x) = (lines @ [cur], w @ x)" using False by (simp add: st wrapStep_def)
      moreover have "wrapStep mc st w = (lines @ [cur], w)" using True False by (simp add: st wrapStep_def)
      ultimately show ?thesis by (simp add: linesOf_def)
    next
      case F2: False
      then have a: "wrapStep mc st w = (lines, cur @ '' '' @ w)" using False by (simp add: st wrapStep_def)
      show ?thesis
      proof (cases "lenGt (length (cur @ '' '' @ w @ x)) mc")
        case True
        then have "wrapStep mc st (w @ x) = (lines @ [cur], w @ x)" using False by (simp add: st wrapStep_def)
        then show ?thesis using a by (simp add: linesOf_def)
      next
        case F3: False
        then have "wrapStep mc st (w @ x) = (lines, cur @ '' '' @ w @ x)" using False by (simp add: st wrapStep_def)
        then show ?thesis using a by (simp add: linesOf_def)
      qed
    qed
  qed
qed

lemma wrapStep_count_pos: "w \<noteq> [] \<Longrightarrow> 1 \<le> length (linesOf (wrapStep mc st w))"
  using linesOf_wrapStep_ne[of w mc st] by (cases "linesOf (wrapStep mc st w)") simp_all

lemma wrapLoop_count_pos:
  assumes "\<not> (\<forall>w\<in>set ws. w = [])"
  shows "1 \<le> length (linesOf (wrapLoop mc st ws))"
  using assms
proof (induction ws arbitrary: st)
  case Nil then show ?case by simp
next
  case (Cons w ws)
  have e: "wrapLoop mc st (w # ws) = wrapLoop mc (wrapStep mc st w) ws" by (simp add: wrapLoop_def)
  show ?case
  proof (cases "w = []")
    case True
    then show ?thesis using Cons e by simp
  next
    case False
    have "1 \<le> length (linesOf (wrapStep mc st w))" using False by (rule wrapStep_count_pos)
    also have "\<dots> \<le> length (linesOf (wrapLoop mc (wrapStep mc st w) ws))" by (rule wrapLoop_count_mono)
    finally show ?thesis using e by simp
  qed
qed

lemma split_sp_snoc_form: "\<exists>ws w. split_sp s = ws @ [w]"
  using split_sp_ne[of s] by (metis append_butlast_last_id)

lemma split_sp_ext:
  "split_sp (s @ t) = butlast (split_sp s) @ (last (split_sp s) @ hd (split_sp t)) # tl (split_sp t)"
proof (induction s)
  case Nil
  show ?case using split_sp_ne[of t] by (cases "split_sp t") simp_all
next
  case (Cons c cs)
  obtain w ws where e: "split_sp cs = w # ws" using split_sp_ne[of cs] by (cases "split_sp cs") auto
  obtain w' ws' where e': "split_sp (cs @ t) = w' # ws'" using split_sp_ne[of "cs @ t"] by (cases "split_sp (cs @ t)") auto
  show ?case
  proof (cases "c = CHR '' ''")
    case True
    then show ?thesis using Cons e by simp
  next
    case False
    show ?thesis
    proof (cases ws)
      case Nil
      then show ?thesis using False Cons e e' by simp
    next
      case (Cons a list)
      then show ?thesis using False Cons.IH e e' by simp
    qed
  qed
qed

lemma wrapLoop_append: "wrapLoop mc st (xs @ ys) = wrapLoop mc (wrapLoop mc st xs) ys"
  by (simp add: wrapLoop_def)

lemma wrapLoop_single: "wrapLoop mc st [w] = wrapStep mc st w"
  by (simp add: wrapLoop_def)

lemma wrapLoop_Cons: "wrapLoop mc st (w # ws) = wrapLoop mc (wrapStep mc st w) ws"
  by (simp add: wrapLoop_def)

lemma wrapLoop_count_ext:
  "length (linesOf (wrapLoop mc st (split_sp s))) \<le> length (linesOf (wrapLoop mc st (split_sp (s @ t))))"
proof -
  let ?b = "butlast (split_sp s)" and ?w = "last (split_sp s)"
  let ?S = "wrapLoop mc st ?b"
  have s: "split_sp s = ?b @ [?w]" using split_sp_ne[of s] by simp
  have "wrapLoop mc st (split_sp s) = wrapStep mc ?S ?w"
    by (subst s) (simp only: wrapLoop_append wrapLoop_single)
  moreover have "wrapLoop mc st (split_sp (s @ t)) = wrapLoop mc (wrapStep mc ?S (?w @ hd (split_sp t))) (tl (split_sp t))"
    by (simp only: split_sp_ext wrapLoop_append wrapLoop_Cons)
  moreover have "length (linesOf (wrapStep mc ?S ?w)) \<le> length (linesOf (wrapStep mc ?S (?w @ hd (split_sp t))))"
    by (rule wrapStep_count_ext)
  moreover have "\<dots> \<le> length (linesOf (wrapLoop mc (wrapStep mc ?S (?w @ hd (split_sp t))) (tl (split_sp t))))"
    by (rule wrapLoop_count_mono)
  ultimately show ?thesis by simp
qed

lemma nonspace_word: "\<exists>c\<in>set s. c \<noteq> CHR '' '' \<Longrightarrow> \<not> (\<forall>w\<in>set (split_sp s). w = [])"
proof (induction s)
  case Nil then show ?case by simp
next
  case (Cons c cs)
  obtain w ws where e: "split_sp cs = w # ws" using split_sp_ne[of cs] by (cases "split_sp cs") auto
  show ?case
  proof (cases "c = CHR '' ''")
    case True then show ?thesis using Cons by auto
  next
    case False then show ?thesis using e by simp
  qed
qed

lemma wrap_count_ext:
  assumes "\<exists>c\<in>set s. c \<noteq> CHR '' ''"
  shows "length (wrap s maxPx fs) \<le> length (wrap (s @ t) maxPx fs)"
proof -
  let ?mc = "maxCharsOf maxPx fs"
  have pos: "1 \<le> length (linesOf (wrapLoop ?mc ([], []) (split_sp (s @ t))))"
    by (rule wrapLoop_count_pos, rule nonspace_word) (use assms in auto)
  show ?thesis
  proof (cases "lenLe (length (s @ t)) ?mc")
    case True
    then have "lenLe (length s) ?mc" by (rule lenLe_antimono) simp
    then show ?thesis using True by (simp add: wrap_fits)
  next
    case False
    note nf = wrap_loop_form[OF False]
    show ?thesis
    proof (cases "lenLe (length s) ?mc")
      case True
      then show ?thesis using pos nf by (simp add: wrap_fits)
    next
      case F2: False
      show ?thesis using wrapLoop_count_ext[of ?mc "([], [])" s t] nf wrap_loop_form[OF F2] by simp
    qed
  qed
qed

lemma dh_stepDims:
  "dh (stepDims st) =
     max (stepPadTop + of_nat (length (wrap (name st) (nameBudget st) stepFontSz)) * stepNameLineH
          + stepNameBadgeGap + stepBadgeRowH + stepPadBottom) stepMinH"
  by (simp add: stepDims_def Let_def nameBudget_def)

lemma nameBudget_name: "nameBudget (st\<lparr>name := n\<rparr>) = nameBudget st"
  by (simp add: nameBudget_def)

text \<open>
  Claim C8 (as amended). The height computed by \<open>stepDims\<close> is never below the minimum
  \<open>stepMinH\<close>, and appending text to a name that contains at least one non-space
  character never decreases the height.
\<close>

theorem stepDims_floor_and_extension:
  "stepMinH \<le> dh (stepDims st)
   \<and> ((\<exists>c\<in>set (name st). c \<noteq> CHR '' '') \<longrightarrow>
        dh (stepDims st) \<le> dh (stepDims (st\<lparr>name := name st @ ext\<rparr>)))"
proof (intro conjI impI)
  show "stepMinH \<le> dh (stepDims st)" by (simp add: dh_stepDims)
next
  assume a: "\<exists>c\<in>set (name st). c \<noteq> CHR '' ''"
  let ?n = "length (wrap (name st) (nameBudget st) stepFontSz)"
  let ?m = "length (wrap (name st @ ext) (nameBudget st) stepFontSz)"
  have "?n \<le> ?m" using a by (rule wrap_count_ext)
  then have "(of_nat ?n :: rat) * stepNameLineH \<le> of_nat ?m * stepNameLineH"
    by (intro mult_right_mono) (simp_all add: stepNameLineH_def)
  then show "dh (stepDims st) \<le> dh (stepDims (st\<lparr>name := name st @ ext\<rparr>))"
    unfolding dh_stepDims nameBudget_name by (simp add: max_def)
qed

theorem stepDims_floor_and_extension_witness:
  "CHR ''R'' \<in> set (name (mkStep ''1.1'' ''Read'')) \<and> CHR ''R'' \<noteq> CHR '' ''
   \<and> stepMinH \<le> dh (stepDims (mkStep ''1.1'' ''Read''))
   \<and> dh (stepDims (mkStep ''1.1'' ''Read''))
       \<le> dh (stepDims ((mkStep ''1.1'' ''Read'')\<lparr>name := name (mkStep ''1.1'' ''Read'')
              @ '' the research consent form and agree to participate in the study''\<rparr>))
   \<and> dh (stepDims (mkStep ''1.1'' ''Read'')) = 67
   \<and> dh (stepDims (mkStep ''1.1''
          ''Read the research consent form and agree to participate in the study'')) = 84"
  using stepDims_floor_and_extension[of "mkStep ''1.1'' ''Read''"
          "'' the research consent form and agree to participate in the study''"]
  by code_simp

text \<open>
  Claim C8 as stated fails: the height follows the number of wrapped lines, not the number
  of characters. A 61-character name of two words wraps into two lines (height 84) while a
  longer 62-character name of one unsplittable word stays on one line (height 67); and a
  name of 61 spaces, which extends the one-space name (height 67), wraps into no line at
  all (height 56, the minimum).
\<close>

theorem stepDims_monotone_counterexample:
  "length (replicate 30 CHR ''a'' @ '' '' @ replicate 30 CHR ''b'') < length (replicate 62 CHR ''a'')
   \<and> dh (stepDims (mkStep ''1.1'' (replicate 62 CHR ''a'')))
       < dh (stepDims (mkStep ''1.1'' (replicate 30 CHR ''a'' @ '' '' @ replicate 30 CHR ''b'')))
   \<and> dh (stepDims (mkStep ''1.1'' ('' '' @ replicate 60 CHR '' '')))
       < dh (stepDims (mkStep ''1.1'' '' ''))"
  by code_simp

section \<open>Properties of the block randomizer\<close>

lemma assignedOf_append: "assignedOf (a @ b) = assignedOf a @ assignedOf b"
  by (simp add: assignedOf_def)

lemma assignedOf_nonForced: "lbl \<noteq> [] \<Longrightarrow> assignedOf [nonForced lbl] = [lbl]"
  by (simp add: assignedOf_def nonForced_def truthy_def)

lemma consistent_iff:
  assumes "posInBlock \<le> length assigned" "posInBlock \<le> length block"
  shows "consistent block assigned posInBlock
         = (take posInBlock block = drop (length assigned - posInBlock) assigned)"
proof -
  let ?e = "take posInBlock block" and ?a = "drop (length assigned - posInBlock) assigned"
  have l: "length ?e = posInBlock" "length ?a = posInBlock" using assms by simp_all
  have "consistent block assigned posInBlock = (\<forall>i<posInBlock. ?e ! i = ?a ! i)"
    using l by (auto simp: consistent_def Let_def list_all_iff)
  also have "\<dots> = (?e = ?a)" using l by (auto simp: list_eq_iff_nth_eq)
  finally show ?thesis .
qed

lemma swap_length: "length (swap b i j) = length b"
  by (simp add: swap_def)

lemma swap_mset: "i < length b \<Longrightarrow> j < length b \<Longrightarrow> mset (swap b i j) = mset b"
  unfolding swap_def by (metis mset_swap)

lemma draw_range:
  assumes "0 \<le> (r::rat)" "r < 1"
  shows "nat \<lfloor>r * of_nat (Suc i + 1)\<rfloor> < Suc i + 1"
proof -
  have "r * of_nat (Suc i + 1) < 1 * of_nat (Suc i + 1)"
    using assms(2) by (rule mult_strict_right_mono) simp
  then have "r * of_nat (Suc i + 1) < of_nat (Suc i + 1)" by simp
  then have "\<lfloor>r * of_nat (Suc i + 1)\<rfloor> < int (Suc i + 1)" by (simp add: floor_less_iff)
  then show ?thesis by linarith
qed

lemma shuffleFrom_props:
  assumes "inUnit rnd" "i < length b"
  shows "mset (fst (shuffleFrom rnd k i b)) = mset b \<and> snd (shuffleFrom rnd k i b) = k + i"
  using assms(2)
proof (induction i arbitrary: k b)
  case 0 show ?case by simp
next
  case (Suc i)
  let ?j = "nat \<lfloor>rnd k * of_nat (Suc i + 1)\<rfloor>"
  have "?j < Suc i + 1" using assms(1) by (intro draw_range) (simp_all add: inUnit_def)
  then have j: "?j < length b" using Suc.prems by simp
  have "mset (swap b (Suc i) ?j) = mset b" using Suc.prems j by (intro swap_mset) simp_all
  moreover have "i < length (swap b (Suc i) ?j)" using Suc.prems by (simp add: swap_length)
  ultimately show ?case using Suc.IH[of "swap b (Suc i) ?j" "Suc k"] by simp
qed

lemma freshBlock_eq: "freshBlock = [''detailed'', ''detailed'', ''simple'', ''simple'']"
  by code_simp

lemma perm_fresh_props:
  assumes "mset b = mset freshBlock"
  shows "length b = 4" "balanced b" "\<forall>x\<in>set b. x \<noteq> []"
proof -
  show "length b = 4" using mset_eq_length[OF assms] by (simp add: freshBlock_eq)
  have "count_list b x = count (mset freshBlock) x" for x
    using assms count_mset[of b x] by simp
  then show "balanced b" by (simp add: balanced_def freshBlock_eq)
  have "set b = set freshBlock" using assms by (rule mset_eq_setD)
  then show "\<forall>x\<in>set b. x \<noteq> []" by (auto simp: freshBlock_eq)
qed

lemma newBlock:
  assumes "inUnit rnd" "length (assignedOf sessions) mod 4 = 0"
  shows "\<exists>b. mset b = mset freshBlock \<and>
             blockRandomize rnd st sessions = (b ! 0, \<lparr>currentBlock = Some b, drawn = drawn st + 3\<rparr>)"
proof -
  let ?r = "shuffleFrom rnd (drawn st) 3 freshBlock"
  have p: "mset (fst ?r) = mset freshBlock \<and> snd ?r = drawn st + 3"
    using assms(1) by (rule shuffleFrom_props) (simp add: freshBlock_eq)
  have "length freshBlock - 1 = 3" by (simp add: freshBlock_eq)
  then have "blockRandomize rnd st sessions = (fst ?r ! 0, \<lparr>currentBlock = Some (fst ?r), drawn = snd ?r\<rparr>)"
    using assms(2) by (simp add: blockRandomize_def Let_def BLOCK_SIZE_def split: prod.splits)
  then show ?thesis using p by auto
qed

lemma midBlock:
  assumes "currentBlock st = Some b" "length b = 4" "assignedOf sessions = A @ take p b"
    "length A mod 4 = 0" "0 < p" "p < 4"
  shows "blockRandomize rnd st sessions = (b ! p, st)"
proof -
  have len: "length (assignedOf sessions) = length A + p" using assms by simp
  have pos: "length (assignedOf sessions) mod 4 = p" using assms len by (simp add: mod_add_left_eq[symmetric])
  have "consistent b (assignedOf sessions) p"
    using assms len by (subst consistent_iff) simp_all
  then show ?thesis using assms pos by (simp add: blockRandomize_def Let_def BLOCK_SIZE_def)
qed

lemma restOfBlock:
  assumes "currentBlock st = Some b" "mset b = mset freshBlock" "assignedOf sessions = A @ take p b"
    "length A mod 4 = 0" "0 < p" "p + m \<le> 4"
  shows "assignMany rnd m st sessions
         = (take m (drop p b), st, sessions @ map nonForced (take m (drop p b)))"
  using assms(3,5,6)
proof (induction m arbitrary: p sessions)
  case 0 show ?case by simp
next
  case (Suc m)
  note lb = perm_fresh_props(1)[OF assms(2)]
  have p4: "p < 4" using Suc.prems by simp
  have br: "blockRandomize rnd st sessions = (b ! p, st)"
    using assms(1) lb Suc.prems(1) assms(4) Suc.prems(2) p4 by (rule midBlock)
  have ne: "b ! p \<noteq> []" using perm_fresh_props(3)[OF assms(2)] lb p4 by (simp add: nth_mem)
  have tk: "take (Suc p) b = take p b @ [b ! p]" using lb p4 by (simp add: take_Suc_conv_app_nth)
  have a': "assignedOf (sessions @ [nonForced (b ! p)]) = A @ take (Suc p) b"
    using Suc.prems(1) ne by (simp add: assignedOf_append assignedOf_nonForced tk)
  have ih: "assignMany rnd m st (sessions @ [nonForced (b ! p)])
        = (take m (drop (Suc p) b), st, (sessions @ [nonForced (b ! p)]) @ map nonForced (take m (drop (Suc p) b)))"
    using a' Suc.prems by (intro Suc.IH) simp_all
  have dr: "drop p b = b ! p # drop (Suc p) b" using lb p4 by (simp add: Cons_nth_drop_Suc)
  show ?case using br ih by (simp add: dr)
qed

lemma assignedOf_map_nonForced: "\<forall>x\<in>set b. x \<noteq> [] \<Longrightarrow> assignedOf (map nonForced b) = b"
  by (induction b) (simp_all add: assignedOf_def nonForced_def truthy_def)

lemma firstCalls:
  assumes "inUnit rnd" "length (assignedOf sessions) mod 4 = 0" "m \<le> 3"
  shows "\<exists>b st'. mset b = mset freshBlock \<and>
           assignMany rnd (Suc m) st sessions
             = (take (Suc m) b, st', sessions @ map nonForced (take (Suc m) b))"
proof -
  obtain b where b: "mset b = mset freshBlock"
    and br: "blockRandomize rnd st sessions = (b ! 0, \<lparr>currentBlock = Some b, drawn = drawn st + 3\<rparr>)"
    using newBlock[OF assms(1,2)] by blast
  let ?st = "\<lparr>currentBlock = Some b, drawn = drawn st + 3\<rparr>"
  note lb = perm_fresh_props(1)[OF b]
  obtain b0 b1 b2 b3 where bb: "b = [b0, b1, b2, b3]"
    using lb by (auto simp: length_Suc_conv numeral_eq_Suc)
  have ne: "b ! 0 \<noteq> []" using perm_fresh_props(3)[OF b] lb by (simp add: nth_mem)
  have a: "assignedOf (sessions @ [nonForced (b ! 0)]) = assignedOf sessions @ take 1 b"
    using ne by (simp add: assignedOf_append assignedOf_nonForced bb)
  have rest: "assignMany rnd m ?st (sessions @ [nonForced (b ! 0)])
      = (take m (drop 1 b), ?st, (sessions @ [nonForced (b ! 0)]) @ map nonForced (take m (drop 1 b)))"
    by (rule restOfBlock[where A = "assignedOf sessions"]) (use b a assms(2,3) in simp_all)
  have "assignMany rnd (Suc m) st sessions = (take (Suc m) b, ?st, sessions @ map nonForced (take (Suc m) b))"
    unfolding assignMany.simps(2) br using rest by (simp add: bb)
  then show ?thesis using b by blast
qed

lemma fourCalls:
  assumes "inUnit rnd" "length (assignedOf sessions) mod 4 = 0"
  shows "\<exists>b st'. mset b = mset freshBlock \<and>
           assignMany rnd 4 st sessions = (b, st', sessions @ map nonForced b)"
proof -
  obtain b st' where b: "mset b = mset freshBlock"
    and r: "assignMany rnd (Suc 3) st sessions = (take (Suc 3) b, st', sessions @ map nonForced (take (Suc 3) b))"
    using firstCalls[OF assms, of 3 st] by auto
  have "take (Suc 3) b = b" using perm_fresh_props(1)[OF b] by simp
  moreover have "assignMany rnd 4 st sessions = assignMany rnd (Suc 3) st sessions" by simp
  ultimately show ?thesis using b r by auto
qed

lemma assignMany_add:
  "assignMany rnd (m + n) st sessions =
     (case assignMany rnd m st sessions of
        (l1, st1, s1) \<Rightarrow> (case assignMany rnd n st1 s1 of (l2, st2, s2) \<Rightarrow> (l1 @ l2, st2, s2)))"
  by (induction m arbitrary: st sessions) (simp_all split: prod.splits)

lemma afterBlock:
  assumes "mset b = mset freshBlock" "length (assignedOf sessions) mod 4 = 0"
  shows "length (assignedOf (sessions @ map nonForced b)) mod 4 = 0"
  using assms perm_fresh_props(1,3)[OF assms(1)]
  by (simp add: assignedOf_append assignedOf_map_nonForced)

lemma run_log:
  assumes "inUnit rnd"
  shows "length (assignedOf sessions) mod 4 = 0 \<Longrightarrow>
         assignedOf (snd (snd (assignMany rnd n st sessions)))
           = assignedOf sessions @ fst (assignMany rnd n st sessions)"
proof (induction n arbitrary: st sessions rule: less_induct)
  case (less n)
  have "n = 0 \<or> (\<exists>m. n = Suc m \<and> m \<le> 3) \<or> (\<exists>n'. n = 4 + n')"
  proof (cases "n < 4")
    case True then show ?thesis by (cases n) auto
  next
    case False then show ?thesis by (metis le_Suc_ex not_less)
  qed
  then consider "n = 0" | m where "n = Suc m" "m \<le> 3" | n' where "n = 4 + n'" by blast
  then show ?case
  proof cases
    case 1 then show ?thesis by simp
  next
    case 2
    obtain b st' where b: "mset b = mset freshBlock"
      and r: "assignMany rnd (Suc m) st sessions = (take (Suc m) b, st', sessions @ map nonForced (take (Suc m) b))"
      using firstCalls[OF assms less.prems 2(2), of st] by auto
    have "\<forall>x\<in>set (take (Suc m) b). x \<noteq> []"
      using perm_fresh_props(3)[OF b] by (meson in_set_takeD)
    then show ?thesis using r 2(1) by (simp add: assignedOf_append assignedOf_map_nonForced)
  next
    case 3
    obtain b st' where b: "mset b = mset freshBlock"
      and r: "assignMany rnd 4 st sessions = (b, st', sessions @ map nonForced b)"
      using fourCalls[OF assms less.prems, of st] by auto
    have ih: "assignedOf (snd (snd (assignMany rnd n' st' (sessions @ map nonForced b))))
           = assignedOf (sessions @ map nonForced b) @ fst (assignMany rnd n' st' (sessions @ map nonForced b))"
      using 3 afterBlock[OF b less.prems] by (intro less.IH) simp_all
    show ?thesis unfolding 3 assignMany_add r using ih perm_fresh_props(3)[OF b]
      by (auto simp: assignedOf_append assignedOf_map_nonForced split: prod.splits)
  qed
qed

lemma blocks_balanced:
  assumes "inUnit rnd"
  shows "length (assignedOf sessions) mod 4 = 0 \<Longrightarrow> 4 * (j + 1) \<le> n \<Longrightarrow>
         balanced (take 4 (drop (4 * j) (fst (assignMany rnd n st sessions))))"
proof (induction j arbitrary: n st sessions)
  case 0
  obtain n' where n: "n = 4 + n'" using 0(2) by (metis le_Suc_ex mult.right_neutral add_0)
  obtain b st' where b: "mset b = mset freshBlock"
    and r: "assignMany rnd 4 st sessions = (b, st', sessions @ map nonForced b)"
    using fourCalls[OF assms 0(1), of st] by auto
  show ?case unfolding n assignMany_add r using perm_fresh_props(1,2)[OF b]
    by (auto split: prod.splits)
next
  case (Suc j)
  obtain n' where n: "n = 4 + n'" using Suc.prems(2) by (metis le_Suc_ex add_leD1 mult_Suc_right Suc_eq_plus1)
  obtain b st' where b: "mset b = mset freshBlock"
    and r: "assignMany rnd 4 st sessions = (b, st', sessions @ map nonForced b)"
    using fourCalls[OF assms Suc.prems(1), of st] by auto
  have ih: "balanced (take 4 (drop (4 * j) (fst (assignMany rnd n' st' (sessions @ map nonForced b)))))"
    using Suc.prems(2) n afterBlock[OF b Suc.prems(1)] by (intro Suc.IH) simp_all
  show ?case unfolding n assignMany_add r using ih perm_fresh_props(1)[OF b]
    by (auto split: prod.splits)
qed

text \<open>
  Claim C2. In a run of non-forced calls, each returned label being appended to the log
  before the next call and the cache kept between calls, started where the log holds a
  multiple of \<open>BLOCK_SIZE\<close> non-forced assignments: every complete block of
  \<open>BLOCK_SIZE = 4\<close> consecutive labels aligned on a block boundary holds exactly two
  \<open>detailed\<close> and two \<open>simple\<close>, and the labels are exactly what the run adds to the
  non-forced assignments of the log.
\<close>

theorem block_balance:
  assumes "inUnit rnd"
    and "length (assignedOf sessions) mod BLOCK_SIZE = 0"
    and "BLOCK_SIZE * (j + 1) \<le> n"
  shows "balanced (take BLOCK_SIZE (drop (BLOCK_SIZE * j) (fst (assignMany rnd n st sessions))))
       \<and> assignedOf (snd (snd (assignMany rnd n st sessions)))
           = assignedOf sessions @ fst (assignMany rnd n st sessions)"
  using blocks_balanced[OF assms(1), of sessions j n st] run_log[OF assms(1), of sessions n st] assms(2,3)
  by (simp add: BLOCK_SIZE_def)

lemma inUnit_rndStraddle: "inUnit rndStraddle"
  by (simp add: inUnit_def rndStraddle_def)

theorem block_balance_witness:
  "inUnit rndStraddle \<and> length (assignedOf []) mod BLOCK_SIZE = 0 \<and> BLOCK_SIZE * (1 + 1) \<le> 8
   \<and> take BLOCK_SIZE (drop (BLOCK_SIZE * 1) (fst (assignMany rndStraddle 8 initialState [])))
       = [''simple'', ''simple'', ''detailed'', ''detailed'']
   \<and> balanced (take BLOCK_SIZE (drop (BLOCK_SIZE * 1) (fst (assignMany rndStraddle 8 initialState []))))"
proof -
  have a: "length (assignedOf []) mod BLOCK_SIZE = 0" by (simp add: assignedOf_def)
  have b: "BLOCK_SIZE * (1 + 1) \<le> 8" by (simp add: BLOCK_SIZE_def)
  have c: "take BLOCK_SIZE (drop (BLOCK_SIZE * 1) (fst (assignMany rndStraddle 8 initialState [])))
       = [''simple'', ''simple'', ''detailed'', ''detailed'']" by code_simp
  show ?thesis using block_balance[OF inUnit_rndStraddle a b, of initialState] inUnit_rndStraddle a b c
    by simp
qed

text \<open>
  Claim C4 (as amended). In a run of non-forced calls from the initial state and the empty
  log, every window of four consecutive labels that starts at a multiple of four holds
  exactly two \<open>detailed\<close> and two \<open>simple\<close>.
\<close>

theorem aligned_window_balance:
  assumes "inUnit rnd" and "i mod BLOCK_SIZE = 0" and "i + BLOCK_SIZE \<le> n"
  shows "balanced (take BLOCK_SIZE (drop i (fst (assignMany rnd n initialState []))))"
proof -
  obtain j where j: "i = 4 * j" using assms(2) by (auto simp: BLOCK_SIZE_def)
  have "length (assignedOf []) mod 4 = 0" by (simp add: assignedOf_def)
  moreover have "4 * (j + 1) \<le> n" using assms(3) j by (simp add: BLOCK_SIZE_def)
  ultimately show ?thesis using blocks_balanced[OF assms(1), of "[]" j n initialState] j
    by (simp add: BLOCK_SIZE_def)
qed

theorem aligned_window_balance_witness:
  "inUnit rndStraddle \<and> 4 mod BLOCK_SIZE = 0 \<and> 4 + BLOCK_SIZE \<le> 8
   \<and> balanced (take BLOCK_SIZE (drop 4 (fst (assignMany rndStraddle 8 initialState []))))"
proof -
  have a: "4 mod BLOCK_SIZE = 0" by (simp add: BLOCK_SIZE_def)
  have b: "4 + BLOCK_SIZE \<le> 8" by (simp add: BLOCK_SIZE_def)
  show ?thesis using aligned_window_balance[OF inUnit_rndStraddle a b] inUnit_rndStraddle a b by simp
qed

text \<open>
  Claim C4 as stated fails for windows that straddle a block boundary: when the first
  block is shuffled to d,d,s,s and the second to s,s,d,d, the window of calls 3 to 6 holds
  four \<open>simple\<close> labels.
\<close>

theorem straddling_window_counterexample:
  "inUnit rndStraddle
   \<and> fst (assignMany rndStraddle 8 initialState [])
       = [''detailed'', ''detailed'', ''simple'', ''simple'', ''simple'', ''simple'', ''detailed'', ''detailed'']
   \<and> take 4 (drop 2 (fst (assignMany rndStraddle 8 initialState [])))
       = [''simple'', ''simple'', ''simple'', ''simple'']
   \<and> \<not> balanced (take 4 (drop 2 (fst (assignMany rndStraddle 8 initialState []))))"
proof -
  have "fst (assignMany rndStraddle 8 initialState [])
       = [''detailed'', ''detailed'', ''simple'', ''simple'', ''simple'', ''simple'', ''detailed'', ''detailed'']"
    by code_simp
  then show ?thesis using inUnit_rndStraddle by (simp add: balanced_def)
qed

lemma count_assigned:
  assumes "lbl \<noteq> []"
  shows "length (filter (\<lambda>c. c = lbl) (assignedOf sessions)) = countNonForced sessions lbl"
proof (induction sessions)
  case Nil show ?case by (simp add: assignedOf_def countNonForced_def)
next
  case (Cons s ss)
  have "assignedOf (s # ss) = assignedOf [s] @ assignedOf ss"
    using assignedOf_append[of "[s]" ss] by simp
  moreover have "countNonForced (s # ss) lbl = countNonForced [s] lbl + countNonForced ss lbl"
    by (simp add: countNonForced_def)
  moreover have "length (filter (\<lambda>c. c = lbl) (assignedOf [s])) = countNonForced [s] lbl"
    using assms by (cases "condition s") (auto simp: assignedOf_def countNonForced_def truthy_def)
  ultimately show ?case using Cons by simp
qed

lemma fallback_counts:
  "fallback rnd st (assignedOf sessions) =
     (if countNonForced sessions ''detailed'' < countNonForced sessions ''simple'' then (''detailed'', st)
      else if countNonForced sessions ''simple'' < countNonForced sessions ''detailed'' then (''simple'', st)
      else ((if rnd (drawn st) < 1 / 2 then ''detailed'' else ''simple''), st\<lparr>drawn := Suc (drawn st)\<rparr>))"
  unfolding fallback_def Let_def
  by (simp only: count_assigned[of "''detailed''", simplified] count_assigned[of "''simple''", simplified])

text \<open>
  Claim C9. Mid-block (the number of non-forced assignments is not a multiple of the block
  size), whenever the cached block is missing, has the wrong length or disagrees with the
  most recent non-forced assignments of the log, \<open>blockRandomize\<close> returns a label (the
  model has no error branch): the label with strictly fewer occurrences among the
  non-forced assignments, and on a tie \<open>detailed\<close> when the next \<open>Math.random()\<close> is
  below one half and \<open>simple\<close> otherwise; the cache is left as it was.
\<close>

theorem fallback_when_cache_unusable:
  assumes "length (assignedOf sessions) mod BLOCK_SIZE \<noteq> 0"
    and "cacheUnusable st sessions"
  shows "blockRandomize rnd st sessions =
     (if countNonForced sessions ''detailed'' < countNonForced sessions ''simple'' then (''detailed'', st)
      else if countNonForced sessions ''simple'' < countNonForced sessions ''detailed'' then (''simple'', st)
      else ((if rnd (drawn st) < 1 / 2 then ''detailed'' else ''simple''), st\<lparr>drawn := Suc (drawn st)\<rparr>))"
proof -
  let ?a = "assignedOf sessions" and ?p = "length (assignedOf sessions) mod BLOCK_SIZE"
  have "blockRandomize rnd st sessions = fallback rnd st ?a"
  proof (cases "currentBlock st")
    case None
    then show ?thesis using assms(1) by (simp add: blockRandomize_def Let_def)
  next
    case (Some b)
    show ?thesis
    proof (cases "length b = BLOCK_SIZE")
      case False
      then show ?thesis using assms(1) Some by (simp add: blockRandomize_def Let_def)
    next
      case True
      have pl: "?p \<le> length ?a" by (rule mod_less_eq_dividend)
      have pb: "?p \<le> length b" using True by (simp add: BLOCK_SIZE_def)
      have "take ?p b \<noteq> drop (length ?a - ?p) ?a"
        using assms(2) Some True by (simp add: cacheUnusable_def Let_def)
      then have "\<not> consistent b ?a ?p" using consistent_iff[OF pl pb] by simp
      then show ?thesis using assms(1) Some by (simp add: blockRandomize_def Let_def)
    qed
  qed
  then show ?thesis by (simp only: fallback_counts)
qed

theorem fallback_when_cache_unusable_witness:
  "length (assignedOf [nonForced ''detailed'', forcedS ''simple'', forcedS ''simple'']) mod BLOCK_SIZE = 1
   \<and> cacheUnusable initialState [nonForced ''detailed'', forcedS ''simple'', forcedS ''simple'']
   \<and> blockRandomize (\<lambda>n. 0) initialState [nonForced ''detailed'', forcedS ''simple'', forcedS ''simple'']
       = (''simple'', initialState)
   \<and> cacheUnusable \<lparr>currentBlock = Some [''simple'', ''simple'', ''detailed'', ''detailed''], drawn = 3\<rparr>
        [nonForced ''detailed'', nonForced ''simple'']
   \<and> blockRandomize (\<lambda>n. 0) \<lparr>currentBlock = Some [''simple'', ''simple'', ''detailed'', ''detailed''], drawn = 3\<rparr>
        [nonForced ''detailed'', nonForced ''simple'']
       = (''detailed'', \<lparr>currentBlock = Some [''simple'', ''simple'', ''detailed'', ''detailed''], drawn = 4\<rparr>)"
proof -
  let ?s1 = "[nonForced ''detailed'', forcedS ''simple'', forcedS ''simple'']"
  let ?s2 = "[nonForced ''detailed'', nonForced ''simple'']"
  let ?st2 = "\<lparr>currentBlock = Some [''simple'', ''simple'', ''detailed'', ''detailed''], drawn = 3\<rparr>"
  have a1: "length (assignedOf ?s1) mod BLOCK_SIZE = 1" by code_simp
  then have n1: "length (assignedOf ?s1) mod BLOCK_SIZE \<noteq> 0" by simp
  have u1: "cacheUnusable initialState ?s1" by code_simp
  have n2: "length (assignedOf ?s2) mod BLOCK_SIZE \<noteq> 0" by code_simp
  have u2: "cacheUnusable ?st2 ?s2" by code_simp
  have c1: "countNonForced ?s1 ''detailed'' = 1" "countNonForced ?s1 ''simple'' = 0" by code_simp+
  have c2: "countNonForced ?s2 ''detailed'' = 1" "countNonForced ?s2 ''simple'' = 1" by code_simp+
  show ?thesis
    using fallback_when_cache_unusable[OF n1 u1, of "\<lambda>n. 0"]
          fallback_when_cache_unusable[OF n2 u2, of "\<lambda>n. 0"] a1 u1 u2 c1 c2
    by simp
qed

section \<open>Properties of the layout engine\<close>

lemma layoutStep_expanded:
  "set (expandedSteps ms) = set (expandedSteps ms') \<Longrightarrow> layoutStep ms = layoutStep ms'"
  by (intro ext) (simp add: layoutStep_def Let_def cong: if_cong)

lemma layoutPhase_expanded:
  "set (expandedSteps ms) = set (expandedSteps ms') \<Longrightarrow> layoutPhase ms = layoutPhase ms'"
  by (intro ext) (simp add: layoutPhase_def layoutStep_expanded[of ms ms'])

text \<open>
  Claim C5. \<open>computeLayout\<close> is a function of the process description and of which steps
  are expanded: two calls with the same description, in module states that have the same
  set of expanded steps (whatever else the module state holds, and in whatever order the
  steps were expanded), return the same layout, element for element.
\<close>

theorem computeLayout_deterministic:
  assumes "set (expandedSteps ms) = set (expandedSteps ms')"
  shows "computeLayout phases ms = computeLayout phases ms'"
  by (simp add: computeLayout_def layoutPhase_expanded[OF assms])

theorem computeLayout_deterministic_witness:
  "set (expandedSteps stateA) = set (expandedSteps stateB)
   \<and> computeLayout examplePhases stateA = computeLayout examplePhases stateB"
proof -
  have s: "set (expandedSteps stateA) = set (expandedSteps stateB)"
    by (auto simp: stateA_def stateB_def)
  show ?thesis using computeLayout_deterministic[OF s, of examplePhases] s by simp
qed











section \<open>Properties of zone height reconciliation\<close>

lemma bfold_ge:
  "a \<le> foldl (\<lambda>shift b. if fst b < t then max shift (snd b) else shift) (a::rat) bs"
proof (induction bs arbitrary: a)
  case Nil show ?case by simp
next
  case (Cons b bs)
  show ?case using Cons[of "max a (snd b)"] Cons[of a] by (simp add: max_def split: if_splits)
qed

lemma bfold_mono:
  "a \<le> a' \<Longrightarrow> (t::rat) \<le> u \<Longrightarrow>
   foldl (\<lambda>shift b. if fst b < t then max shift (snd b) else shift) (a::rat) bs
   \<le> foldl (\<lambda>shift b. if fst b < u then max shift (snd b) else shift) a' bs"
proof (induction bs arbitrary: a a')
  case Nil then show ?case by simp
next
  case (Cons b bs)
  have "(if fst b < t then max a (snd b) else a) \<le> (if fst b < u then max a' (snd b) else a')"
    using Cons.prems by (auto simp: max_def)
  then show ?case using Cons.IH Cons.prems(2) by simp
qed



lemma shiftAt_nonneg: "0 \<le> shiftAt bs t"
  unfolding shiftAt_def by (rule bfold_ge)

lemma shiftAt_mono: "t \<le> u \<Longrightarrow> shiftAt bs t \<le> shiftAt bs u"
  unfolding shiftAt_def by (rule bfold_mono) simp_all



lemma monoShift_shiftAt: "monoShift (shiftAt bs)"
  by (simp add: monoShift_def shiftAt_nonneg shiftAt_mono)

lemma monoShift_zero: "monoShift (\<lambda>t. 0)"
  by (simp add: monoShift_def)

lemma shiftY_zero: "shiftY e 0 = e"
  by (cases e) simp_all

lemma shiftBy_zero: "shiftBy (\<lambda>t. 0) e = e"
  by (cases e) simp_all

lemma shiftBy_shiftY: "\<not> (\<exists>ph x y w h. e = BandE ph x y w h) \<Longrightarrow> shiftBy s e = shiftY e (s (topY e))"
  by (cases e) simp_all

lemma adjustElem_shiftBy: "adjustElem bs e = shiftBy (shiftAt bs) e"
proof (cases e)
  case (BandE ph x y w h) then show ?thesis by (simp add: Let_def)
next
  case (StartE x y r)
  then show ?thesis using shiftAt_nonneg[of bs "y - r"] by (auto simp: Let_def)
next
  case (EndE x y r)
  then show ?thesis using shiftAt_nonneg[of bs "y - r"] by (auto simp: Let_def)
next
  case (TaskE st ph d x y w h ie eh)
  then show ?thesis using shiftAt_nonneg[of bs y] by (auto simp: Let_def)
next
  case (DecisionE st ph x y sz ls)
  then show ?thesis using shiftAt_nonneg[of bs "y - sz / 2"] by (auto simp: Let_def)
qed

lemma topY_shiftBy: "topY (shiftBy s e) = topY e + s (topY e)"
  by (cases e) simp_all


lemma frameOf_shiftBy: "frameOf (shiftBy s e) = frameOf e"
  by (cases e) simp_all



lemma adjustZone_unfold:
  "adjustZone l z mo =
     (case zoneDelta l z mo of
        None \<Rightarrow> l
      | Some d \<Rightarrow> l\<lparr>elems := map (shiftBy (shiftAt (zoneBoundaries (zoneStepElems l z) d))) (elems l),
                    lh := lh l + d\<rparr>)"
proof -
  have "adjustElem bs = shiftBy (shiftAt bs)" for bs
    by (rule ext) (rule adjustElem_shiftBy)
  then show ?thesis
    by (cases mo) (auto simp: adjustZone_def zoneDelta_def zoneSpan_def Let_def not_le not_less)
qed


lemma adjustZone_shifted:
  "\<exists>s. monoShift s \<and> elems (adjustZone l z mo) = map (shiftBy s) (elems l)"
proof (cases "zoneDelta l z mo")
  case None
  have "shiftBy (\<lambda>t. 0) = (\<lambda>e. e)" by (rule ext) (rule shiftBy_zero)
  then have "elems l = map (shiftBy (\<lambda>t. 0)) (elems l)" by simp
  then show ?thesis using None monoShift_zero unfolding adjustZone_unfold by auto
next
  case (Some d)
  then show ?thesis using monoShift_shiftAt unfolding adjustZone_unfold by auto
qed

lemma adjustZone_lw_cx: "lw (adjustZone l z mo) = lw l \<and> cx (adjustZone l z mo) = cx l"
  unfolding adjustZone_unfold by (cases "zoneDelta l z mo") simp_all







lemma monoShift_comp:
  assumes "monoShift s1" "monoShift s2"
  shows "monoShift (\<lambda>t. s1 t + s2 (t + s1 t))"
proof -
  have n: "0 \<le> s1 t + s2 (t + s1 t)" for t
    using assms by (simp add: monoShift_def)
  have m: "s1 t + s2 (t + s1 t) \<le> s1 u + s2 (u + s1 u)" if "t \<le> u" for t u
  proof -
    have a: "s1 t \<le> s1 u" using assms(1) that by (simp add: monoShift_def)
    then have "t + s1 t \<le> u + s1 u" using that by simp
    then have "s2 (t + s1 t) \<le> s2 (u + s1 u)" using assms(2) by (simp add: monoShift_def)
    then show ?thesis using a by simp
  qed
  show ?thesis unfolding monoShift_def using n m by blast
qed

lemma shiftBy_comp: "shiftBy s2 (shiftBy s1 e) = shiftBy (\<lambda>t. s1 t + s2 (t + s1 t)) e"
  by (cases e) (simp_all add: algebra_simps)

lemma zonesLoop_shifted:
  "\<exists>s. monoShift s \<and> elems (zonesLoop ms zs idx l) = map (shiftBy s) (elems l)"
proof (induction zs arbitrary: idx l)
  case Nil
  have "shiftBy (\<lambda>t. 0) = (\<lambda>e. e)" by (rule ext) (rule shiftBy_zero)
  then have "elems l = map (shiftBy (\<lambda>t. 0)) (elems l)" by simp
  then show ?case using monoShift_zero by auto
next
  case (Cons z zs)
  let ?l1 = "adjustZone l z (nthOpt ms idx)"
  obtain s1 where s1: "monoShift s1" "elems ?l1 = map (shiftBy s1) (elems l)"
    using adjustZone_shifted by blast
  obtain s2 where s2: "monoShift s2" "elems (zonesLoop ms zs (Suc idx) ?l1) = map (shiftBy s2) (elems ?l1)"
    using Cons.IH by blast
  have "elems (zonesLoop ms (z # zs) idx l) = map (shiftBy (\<lambda>t. s1 t + s2 (t + s1 t))) (elems l)"
    using s1(2) s2(2) by (simp add: shiftBy_comp)
  then show ?case using monoShift_comp[OF s1(1) s2(1)] by blast
qed

lemma zonesLoop_lw_cx: "lw (zonesLoop ms zs idx l) = lw l \<and> cx (zonesLoop ms zs idx l) = cx l"
  by (induction zs arbitrary: idx l) (simp_all add: adjustZone_lw_cx)

lemma monoShift_strict:
  assumes "monoShift s" "t < u"
  shows "t + s t < u + s u"
proof -
  have "s t \<le> s u" using assms by (simp add: monoShift_def)
  then show ?thesis using assms(2) by simp
qed

lemma zip_map_self: "set (zip xs (map f xs)) = (\<lambda>x. (x, f x)) ` set xs"
  by (induction xs) auto

lemma verticalOnly_shifted:
  assumes "monoShift s" "elems l' = map (shiftBy s) (elems l)" "lw l' = lw l" "cx l' = cx l"
  shows "verticalOnly l l'"
proof -
  have "map frameOf (elems l') = map frameOf (elems l)"
    using assms(2) by (simp add: frameOf_shiftBy)
  moreover have "topY (snd p) < topY (snd q)"
    if pm: "p \<in> set (zip (elems l) (elems l'))" and qm: "q \<in> set (zip (elems l) (elems l'))"
      and lt: "topY (fst p) < topY (fst q)"
    for p q
  proof -
    obtain a b where "p = (a, shiftBy s a)" "q = (b, shiftBy s b)"
      using pm qm unfolding assms(2) zip_map_self by auto
    then show ?thesis using lt monoShift_strict[OF assms(1)] by (simp add: topY_shiftBy)
  qed
  ultimately show ?thesis using assms(3,4) unfolding verticalOnly_def by blast
qed

text \<open>
  Claim C10. Reconciliation changes vertical extents only: after the pass every element
  is the element it was except for its \<open>y\<close> (and, for a band, its height), so x
  coordinates, widths, the heights of tasks, sizes, radii and the cached wrapped lines are
  unchanged; the layout's width and centre line are unchanged; and whenever one element's
  top was above another's before the pass, it still is after it.
\<close>

theorem reconcile_vertical_only:
  "verticalOnly layout (adjustLayoutForZoneMinHeights layout zones minHeights)"
proof -
  have refl: "verticalOnly layout layout"
  proof (rule verticalOnly_shifted[OF monoShift_zero])
    have "shiftBy (\<lambda>t. 0) = (\<lambda>e. e)" by (rule ext) (rule shiftBy_zero)
    then show "elems layout = map (shiftBy (\<lambda>t. 0)) (elems layout)" by simp
  qed simp_all
  show ?thesis
  proof (cases zones)
    case None then show ?thesis using refl by (simp add: adjustLayoutForZoneMinHeights_def)
  next
    case (Some zs)
    show ?thesis
    proof (cases minHeights)
      case None then show ?thesis using refl Some by (simp add: adjustLayoutForZoneMinHeights_def)
    next
      case Some2: (Some ms)
      obtain s where "monoShift s" "elems (zonesLoop ms zs 0 layout) = map (shiftBy s) (elems layout)"
        using zonesLoop_shifted by blast
      then have "verticalOnly layout (zonesLoop ms zs 0 layout)"
        using zonesLoop_lw_cx by (intro verticalOnly_shifted) auto
      then show ?thesis using Some Some2 by (simp add: adjustLayoutForZoneMinHeights_def)
    qed
  qed
qed

theorem reconcile_vertical_only_witness:
  "map topY (elems (computeLayout examplePhases stateA)) = [36, 134, 215, 86, 447, 524, 399, 647]
   \<and> map topY (elems (adjustLayoutForZoneMinHeights (computeLayout examplePhases stateA)
          (Some [zoneA, zoneOne, zoneB]) (Some [300, 0, 200]))) = [36, 134, 306, 86, 538, 671, 490, 794]
   \<and> verticalOnly (computeLayout examplePhases stateA)
        (adjustLayoutForZoneMinHeights (computeLayout examplePhases stateA)
          (Some [zoneA, zoneOne, zoneB]) (Some [300, 0, 200]))"
proof -
  have a: "map topY (elems (computeLayout examplePhases stateA)) = [36, 134, 215, 86, 447, 524, 399, 647]"
    by code_simp
  have b: "map topY (elems (adjustLayoutForZoneMinHeights (computeLayout examplePhases stateA)
          (Some [zoneA, zoneOne, zoneB]) (Some [300, 0, 200]))) = [36, 134, 306, 86, 538, 671, 490, 794]"
    by code_simp
  show ?thesis
    using reconcile_vertical_only[of "computeLayout examplePhases stateA" "Some [zoneA, zoneOne, zoneB]" "Some [300, 0, 200]"] a b
    by simp
qed




























lemma topYF_exact: "topYF (\<lambda>x. x) e = topY e"
  by (cases e) simp_all

lemma bottomYF_exact: "bottomYF (\<lambda>x. x) e = bottomY e"
  by (cases e) simp_all

lemma mapY_shiftY: "mapY (\<lambda>y. y + s) e = shiftY e s"
  by (cases e) simp_all

lemma adjustElemF_exact: "adjustElemF (\<lambda>x. x) bs e = adjustElem bs e"
  by (cases e) (simp_all add: Let_def mapY_shiftY)

lemma zoneStepElemsF_exact: "zoneStepElemsF (\<lambda>x. x) l z = zoneStepElems l z"
proof -
  have "topYF (\<lambda>x. x) = topY" by (rule ext) (rule topYF_exact)
  then show ?thesis by (simp add: zoneStepElemsF_def zoneStepElems_def)
qed

lemma zoneBoundariesF_exact: "zoneBoundariesF (\<lambda>x. x) xs d = zoneBoundaries xs d"
  by (simp add: zoneBoundariesF_def zoneBoundaries_def Let_def bottomYF_exact)

lemma adjustZoneF_exact: "adjustZoneF (\<lambda>x. x) l z mo = adjustZone l z mo"
proof -
  have "adjustElemF (\<lambda>x. x) bs = adjustElem bs" for bs by (rule ext) (rule adjustElemF_exact)
  then show ?thesis
    by (cases mo) (simp_all add: adjustZoneF_def adjustZone_def zoneStepElemsF_exact
          zoneBoundariesF_exact topYF_exact bottomYF_exact Let_def)
qed

lemma zonesLoopF_exact: "zonesLoopF (\<lambda>x. x) ms zs idx l = zonesLoop ms zs idx l"
  by (induction zs arbitrary: idx l) (simp_all add: adjustZoneF_exact)

lemma reconcileF_exact: "reconcileF (\<lambda>x. x) l zones minHeights = adjustLayoutForZoneMinHeights l zones minHeights"
  by (simp add: reconcileF_def adjustLayoutForZoneMinHeights_def zonesLoopF_exact
        split: option.splits)



text \<open>
  Without the last condition a second pass can move a zone of two members again: with
  the fractional minimum \<open>150 / 0.9 + 16\<close> the first pass puts the second task at
  \<open>249.66666666666666\<close>, the second pass finds the span one unit in the last place below
  the minimum and moves the task to \<open>249.66666666666669\<close>.
\<close>

lemma reconcile64_rounding_example:
  "map topY (elems (reconcile64 (computeLayout twoTasks noExpansion) (Some [zoneBoth]) (Some [fractionalMin])))
     = [36, 134, 8784364898178389 / 35184372088832, 86, 3278010666276181 / 8796093022208]
   \<and> map topY (elems (reconcile64
          (reconcile64 (computeLayout twoTasks noExpansion) (Some [zoneBoth]) (Some [fractionalMin]))
          (Some [zoneBoth]) (Some [fractionalMin])))
     = [36, 134, 4392182449089195 / 17592186044416, 86, 3278010666276181 / 8796093022208]"
  by code_simp


end
